theory Spec2Isabelle
  imports Main "HOL-Library.Char_ord" "HOL-Library.List_Lexorder"
begin

section \<open>Characters and values\<close>

text \<open>
  The source text is a Python \<open>str\<close>. The model covers texts whose code points lie in
  U+0000..U+00FF, one \<^typ>\<open>char\<close> per code point, so that \<open>len\<close>, indexing and
  slicing are \<^const>\<open>length\<close>, \<open>!\<close> and \<^const>\<open>drop\<close>. The character predicates
  below are the values of Python's predicates on that range.
\<close>

definition NL :: char where "NL = CHR 0x0A"
definition DQUOTE :: char where "DQUOTE = CHR 0x22"
definition BACKSLASH :: char where "BACKSLASH = CHR 0x5C"

text \<open>\<open>str.isspace\<close>: tab, line feed, vertical tab, form feed, carriage return,
  the separators U+001C..U+001F, space, U+0085 and U+00A0.\<close>

definition isspace :: "char \<Rightarrow> bool" where
  "isspace c = (c \<in> set [CHR 0x09, CHR 0x0A, CHR 0x0B, CHR 0x0C, CHR 0x0D,
                           CHR 0x1C, CHR 0x1D, CHR 0x1E, CHR 0x1F, CHR 0x20,
                           CHR 0x85, CHR 0xA0])"

text \<open>\<open>str.isdigit\<close>: the ASCII digits and the superscripts U+00B2, U+00B3, U+00B9.\<close>

definition isdigit :: "char \<Rightarrow> bool" where
  "isdigit c = (c \<in> set ''0123456789'' \<or> c \<in> set [CHR 0xB2, CHR 0xB3, CHR 0xB9])"

text \<open>The class \<open>\d\<close> of \<open>re\<close> (decimal digits only) and the class \<open>[_a-z]\<close>.\<close>

definition re_digit :: "char \<Rightarrow> bool" where
  "re_digit c = (c \<in> set ''0123456789'')"

definition re_ident :: "char \<Rightarrow> bool" where
  "re_ident c = (c \<in> set ''_abcdefghijklmnopqrstuvwxyz'')"

text \<open>\<open>int(num_str)\<close> on a string of decimal digits.\<close>

definition digit_value :: "char \<Rightarrow> int" where
  "digit_value c = int (of_char c - (48::nat))"

definition int_of_str :: "string \<Rightarrow> int" where
  "int_of_str s = foldl (\<lambda>a c. 10 * a + digit_value c) 0 s"

text \<open>
  Python values as the program builds them: the parser returns \<open>int\<close>, \<open>str\<close>, \<open>dict\<close>
  (keys are identifiers, insertion-ordered) and tuples whose first component is a tag
  string: \<open>('let', name, value)\<close>, \<open>('q', expr)\<close>, \<open>('var', name)\<close>.
\<close>

datatype pyval =
    PNone
  | PInt int
  | PStr string
  | PDict "(string \<times> pyval) list"
  | PTuple "pyval list"

text \<open>\<open>d[key] = value\<close> on an insertion-ordered dict: an existing key keeps its
  position and gets the new value, a new key is appended.\<close>

fun dict_setitem :: "('k \<times> 'v) list \<Rightarrow> 'k \<Rightarrow> 'v \<Rightarrow> ('k \<times> 'v) list" where
  "dict_setitem [] k v = [(k, v)]"
| "dict_setitem ((k', v') # d) k v =
     (if k' = k then (k, v) # d else (k', v') # dict_setitem d k v)"

section \<open>Scanner\<close>

datatype pattern =
    Digits        \<comment> \<open>\<open>\d+\<close>\<close>
  | Ident         \<comment> \<open>\<open>[_a-z]+\<close>\<close>
  | Lit string    \<comment> \<open>a pattern matching exactly this text, such as \<open>q\(\<close>\<close>

datatype message =
    ExpectedToken pattern
  | UnterminatedString
  | UnexpectedEnd
  | ExpectedValue

datatype failure =
    SyntaxError nat nat message    \<comment> \<open>\<open>ConfigLanguageError\<close> of \<open>Parser.error\<close>: line, column\<close>
  | UndefinedVariable pyval        \<comment> \<open>\<open>ConfigLanguageError\<close>, undefined variable\<close>
  | UnknownNode pyval              \<comment> \<open>\<open>ConfigLanguageError\<close>, unknown AST node\<close>
  | IndexError
  | ValueError
  | TypeError

record parser =
  ptext :: string
  pos :: nat
  line :: nat
  col :: nat

definition Parser :: "string \<Rightarrow> parser" where
  "Parser t = \<lparr>ptext = t, pos = 0, line = 1, col = 1\<rparr>"

definition error :: "parser \<Rightarrow> message \<Rightarrow> failure" where
  "error st m = SyntaxError (line st) (col st) m"

function skip_whitespace :: "parser \<Rightarrow> parser" where
  "skip_whitespace st =
     (if pos st < length (ptext st) \<and> isspace (ptext st ! pos st)
      then skip_whitespace
             (if ptext st ! pos st = NL
              then st\<lparr>pos := pos st + 1, line := line st + 1, col := 1\<rparr>
              else st\<lparr>pos := pos st + 1, col := col st + 1\<rparr>)
      else st)"
  by pat_completeness auto
termination
  by (relation "measure (\<lambda>st. length (ptext st) - pos st)") auto

declare skip_whitespace.simps [simp del]

text \<open>\<open>re.match(pattern, s)\<close> for the patterns the parser uses: the matched token.\<close>

fun re_match :: "pattern \<Rightarrow> string \<Rightarrow> string option" where
  "re_match Digits s =
     (if takeWhile re_digit s = [] then None else Some (takeWhile re_digit s))"
| "re_match Ident s =
     (if takeWhile re_ident s = [] then None else Some (takeWhile re_ident s))"
| "re_match (Lit t) s = (if take (length t) s = t then Some t else None)"

definition match :: "pattern \<Rightarrow> parser \<Rightarrow> failure + string \<times> parser" where
  "match pat st0 =
     (let st = skip_whitespace st0 in
      case re_match pat (drop (pos st) (ptext st)) of
        None \<Rightarrow> Inl (error st (ExpectedToken pat))
      | Some token \<Rightarrow>
          Inr (token, st\<lparr>pos := pos st + length token, col := col st + length token\<rparr>))"

definition parse_number :: "parser \<Rightarrow> failure + pyval \<times> parser" where
  "parse_number st =
     (case match Digits st of
        Inl e \<Rightarrow> Inl e
      | Inr (num_str, st') \<Rightarrow> Inr (PInt (int_of_str num_str), st'))"

definition parse_identifier :: "parser \<Rightarrow> failure + string \<times> parser" where
  "parse_identifier st = match Ident st"

text \<open>The scanning loop of \<open>parse_string\<close>: only \<open>pos\<close> moves. A backslash as the
  last character leaves the loop with \<open>pos\<close> past the end (the \<open>break\<close>).\<close>

function string_scan :: "string \<Rightarrow> nat \<Rightarrow> nat" where
  "string_scan t p =
     (if p < length t \<and> t ! p \<noteq> DQUOTE
      then (if t ! p = BACKSLASH
            then (if p + 1 \<ge> length t then p + 1 else string_scan t (p + 1 + 1))
            else string_scan t (p + 1))
      else p)"
  by pat_completeness auto
termination
  by (relation "measure (\<lambda>(t, p). length t - p)") auto

declare string_scan.simps [simp del]

definition parse_string :: "parser \<Rightarrow> failure + pyval \<times> parser" where
  "parse_string st0 =
     (case match (Lit [DQUOTE]) st0 of
        Inl e \<Rightarrow> Inl e
      | Inr (_, st1) \<Rightarrow>
          let start = pos st1;
              st2 = st1\<lparr>pos := string_scan (ptext st1) (pos st1)\<rparr>
          in if pos st2 \<ge> length (ptext st2) \<or> ptext st2 ! pos st2 \<noteq> DQUOTE
             then Inl (error st2 UnterminatedString)
             else let s = take (pos st2 - start) (drop start (ptext st2)) in
                  (case match (Lit [DQUOTE]) st2 of
                     Inl e \<Rightarrow> Inl e
                   | Inr (_, st3) \<Rightarrow> Inr (PStr s, st3)))"

definition parse_var :: "parser \<Rightarrow> failure + pyval \<times> parser" where
  "parse_var st0 =
     (case match (Lit ''$'') st0 of
        Inl e \<Rightarrow> Inl e
      | Inr (_, st1) \<Rightarrow>
     (case match (Lit ''['') st1 of
        Inl e \<Rightarrow> Inl e
      | Inr (_, st2) \<Rightarrow>
     (case parse_identifier st2 of
        Inl e \<Rightarrow> Inl e
      | Inr (name, st3) \<Rightarrow>
     (case match (Lit '']'') st3 of
        Inl e \<Rightarrow> Inl e
      | Inr (_, st4) \<Rightarrow> Inr (PTuple [PStr ''var'', PStr name], st4)))))"

section \<open>Parser\<close>

text \<open>
  \<open>parse_value\<close> and \<open>parse_dict\<close> call each other, and the loop of \<open>parse_dict\<close>
  continues from the position \<open>parse_value\<close> returns. The recursion is modelled with
  fuel: \<open>None\<close> means the fuel ran out. \<open>parse_value\<close> below supplies more fuel than
  there are characters left, which lemma \<open>parse_fuel_enough\<close> shows to suffice.
  Python's recursion limit, which ends the run on a literal nested several hundred levels
  deep, and the digit limit of \<open>int\<close> are outside the model.
\<close>

fun parse_value_fuel :: "nat \<Rightarrow> parser \<Rightarrow> (failure + pyval \<times> parser) option"
  and parse_dict_fuel :: "nat \<Rightarrow> parser \<Rightarrow> (failure + pyval \<times> parser) option"
  and parse_dict_loop ::
    "nat \<Rightarrow> bool \<Rightarrow> (string \<times> pyval) list \<Rightarrow> parser
       \<Rightarrow> (failure + (string \<times> pyval) list \<times> parser) option"
where
  "parse_value_fuel 0 st0 = None"
| "parse_value_fuel (Suc n) st0 =
     (let st = skip_whitespace st0 in
      if pos st \<ge> length (ptext st) then Some (Inl (error st UnexpectedEnd))
      else let char = ptext st ! pos st in
        if isdigit char then Some (parse_number st)
        else if char = DQUOTE then Some (parse_string st)
        else if char = CHR ''{'' then parse_dict_fuel n st
        else if char = CHR ''$'' then Some (parse_var st)
        else Some (Inl (error st ExpectedValue)))"
| "parse_dict_fuel n st0 =
     (case match (Lit ''{'') st0 of
        Inl e \<Rightarrow> Some (Inl e)
      | Inr (_, st1) \<Rightarrow>
     (case parse_dict_loop n True [] st1 of
        None \<Rightarrow> None
      | Some (Inl e) \<Rightarrow> Some (Inl e)
      | Some (Inr (result, st2)) \<Rightarrow>
     (case match (Lit ''}'') st2 of
        Inl e \<Rightarrow> Some (Inl e)
      | Inr (_, st3) \<Rightarrow> Some (Inr (PDict result, st3)))))"
| "parse_dict_loop 0 first result st0 = None"
| "parse_dict_loop (Suc n) first result st0 =
     (if pos st0 < length (ptext st0) then
        let st = skip_whitespace st0 in
        if pos st < length (ptext st) \<and> ptext st ! pos st = CHR ''}''
        then Some (Inr (result, st))
        else
     (case (if \<not> first then match (Lit '','') st else Inr ([], st)) of
        Inl e \<Rightarrow> Some (Inl e)
      | Inr (_, st1) \<Rightarrow>
     (case parse_identifier st1 of
        Inl e \<Rightarrow> Some (Inl e)
      | Inr (key, st2) \<Rightarrow>
     (case match (Lit ''=>'') st2 of
        Inl e \<Rightarrow> Some (Inl e)
      | Inr (_, st3) \<Rightarrow>
     (case parse_value_fuel n st3 of
        None \<Rightarrow> None
      | Some (Inl e) \<Rightarrow> Some (Inl e)
      | Some (Inr (value, st4)) \<Rightarrow>
          parse_dict_loop n False (dict_setitem result key value) st4))))
      else Some (Inr (result, st0)))"

definition parse_value :: "parser \<Rightarrow> (failure + pyval \<times> parser) option" where
  "parse_value st = parse_value_fuel (Suc (length (ptext st))) st"

definition parse_let :: "parser \<Rightarrow> (failure + pyval \<times> parser) option" where
  "parse_let st0 =
     (case match (Lit ''let'') st0 of
        Inl e \<Rightarrow> Some (Inl e)
      | Inr (_, st1) \<Rightarrow>
     (case parse_identifier st1 of
        Inl e \<Rightarrow> Some (Inl e)
      | Inr (name, st2) \<Rightarrow>
     (case match (Lit ''='') st2 of
        Inl e \<Rightarrow> Some (Inl e)
      | Inr (_, st3) \<Rightarrow>
     (case parse_value st3 of
        None \<Rightarrow> None
      | Some (Inl e) \<Rightarrow> Some (Inl e)
      | Some (Inr (value, st4)) \<Rightarrow>
          Some (Inr (PTuple [PStr ''let'', PStr name, value], st4))))))"

definition parse_q :: "parser \<Rightarrow> (failure + pyval \<times> parser) option" where
  "parse_q st0 =
     (case match (Lit ''q('') st0 of
        Inl e \<Rightarrow> Some (Inl e)
      | Inr (_, st1) \<Rightarrow>
     (case parse_value st1 of
        None \<Rightarrow> None
      | Some (Inl e) \<Rightarrow> Some (Inl e)
      | Some (Inr (expr, st2)) \<Rightarrow>
     (case match (Lit '')'') st2 of
        Inl e \<Rightarrow> Some (Inl e)
      | Inr (_, st3) \<Rightarrow> Some (Inr (PTuple [PStr ''q'', expr], st3)))))"

definition parse_expression :: "parser \<Rightarrow> (failure + pyval \<times> parser) option" where
  "parse_expression st0 =
     (let st = skip_whitespace st0 in
      if pos st < length (ptext st) \<and> ptext st ! pos st = CHR ''$''
      then Some (parse_var st)
      else parse_value st)"

text \<open>\<open>text.startswith(prefix, pos)\<close>.\<close>

definition startswith :: "string \<Rightarrow> string \<Rightarrow> nat \<Rightarrow> bool" where
  "startswith t prefix p = (take (length prefix) (drop p t) = prefix)"

text \<open>\<open>parse_statement\<close> returns \<open>None\<close> (here \<^const>\<open>PNone\<close>) at the end of the text.\<close>

definition parse_statement :: "parser \<Rightarrow> (failure + pyval \<times> parser) option" where
  "parse_statement st0 =
     (let st = skip_whitespace st0 in
      if pos st \<ge> length (ptext st) then Some (Inr (PNone, st))
      else if startswith (ptext st) ''let'' (pos st) then parse_let st
      else if startswith (ptext st) ''q('' (pos st) then parse_q st
      else parse_expression st)"

fun parse_all_loop ::
  "nat \<Rightarrow> pyval list \<Rightarrow> parser \<Rightarrow> (failure + pyval list \<times> parser) option" where
  "parse_all_loop 0 statements st0 = None"
| "parse_all_loop (Suc n) statements st0 =
     (if pos st0 < length (ptext st0) then
        let st = skip_whitespace st0 in
        if pos st \<ge> length (ptext st) then Some (Inr (statements, st))
        else
          (case parse_statement st of
             None \<Rightarrow> None
           | Some (Inl e) \<Rightarrow> Some (Inl e)
           | Some (Inr (stmt, st1)) \<Rightarrow>
               if stmt = PNone then Some (Inr (statements, st1))
               else parse_all_loop n (statements @ [stmt]) st1)
      else Some (Inr (statements, st0)))"

definition parse_all :: "parser \<Rightarrow> (failure + pyval list) option" where
  "parse_all st =
     (case parse_all_loop (Suc (length (ptext st))) [] st of
        None \<Rightarrow> None
      | Some (Inl e) \<Rightarrow> Some (Inl e)
      | Some (Inr (statements, _)) \<Rightarrow> Some (Inr statements))"

section \<open>Interpreter\<close>

text \<open>
  The interpreter state: the dict \<open>variables\<close>, and the values handed to
  \<open>print(yaml.dump(...))\<close> so far, in order. A value used as a dict key has to be
  hashable.
\<close>

record interp =
  variables :: "(pyval \<times> pyval) list"
  printed :: "pyval list"

definition Interpreter :: interp where
  "Interpreter = \<lparr>variables = [], printed = []\<rparr>"

fun hashable :: "pyval \<Rightarrow> bool" where
  "hashable (PDict d) = False"
| "hashable (PTuple xs) = list_all hashable xs"
| "hashable v = True"

fun evaluate :: "interp \<Rightarrow> pyval \<Rightarrow> failure + pyval \<times> interp"
  and eval_value :: "interp \<Rightarrow> pyval \<Rightarrow> failure + pyval \<times> interp"
  and eval_items ::
    "interp \<Rightarrow> (string \<times> pyval) list \<Rightarrow> failure + (string \<times> pyval) list \<times> interp"
where
  "evaluate it PNone = Inr (PNone, it)"
| "evaluate it (PTuple []) = Inl IndexError"
| "evaluate it (PTuple (tag # rest)) =
     (if tag = PStr ''let'' then
        (case rest of
           [name, value] \<Rightarrow>
             (case eval_value it value of
                Inl e \<Rightarrow> Inl e
              | Inr (v, it1) \<Rightarrow>
                  if hashable name
                  then Inr (PNone, it1\<lparr>variables := dict_setitem (variables it1) name v\<rparr>)
                  else Inl TypeError)
         | _ \<Rightarrow> Inl ValueError)
      else if tag = PStr ''q'' then
        (case rest of
           [expr] \<Rightarrow>
             (case eval_value it expr of
                Inl e \<Rightarrow> Inl e
              | Inr (result, it1) \<Rightarrow> Inr (PNone, it1\<lparr>printed := printed it1 @ [result]\<rparr>))
         | _ \<Rightarrow> Inl ValueError)
      else if tag = PStr ''var'' then
        (case rest of
           [name] \<Rightarrow>
             if \<not> hashable name then Inl TypeError
             else (case map_of (variables it) name of
                     None \<Rightarrow> Inl (UndefinedVariable name)
                   | Some v \<Rightarrow> Inr (v, it))
         | _ \<Rightarrow> Inl ValueError)
      else Inl (UnknownNode (PTuple (tag # rest))))"
| "evaluate it (PInt i) = Inr (PInt i, it)"
| "evaluate it (PStr s) = Inr (PStr s, it)"
| "evaluate it (PDict d) = Inr (PDict d, it)"
| "eval_value it (PDict d) =
     (case eval_items it d of
        Inl e \<Rightarrow> Inl e
      | Inr (d', it1) \<Rightarrow> Inr (PDict d', it1))"
| "eval_value it (PTuple []) = Inl IndexError"
| "eval_value it (PTuple (tag # rest)) =
     (if tag = PStr ''var'' then evaluate it (PTuple (tag # rest))
      else Inr (PTuple (tag # rest), it))"
| "eval_value it PNone = Inr (PNone, it)"
| "eval_value it (PInt i) = Inr (PInt i, it)"
| "eval_value it (PStr s) = Inr (PStr s, it)"
| "eval_items it [] = Inr ([], it)"
| "eval_items it ((k, v) # d) =
     (case eval_value it v of
        Inl e \<Rightarrow> Inl e
      | Inr (v', it1) \<Rightarrow>
     (case eval_items it1 d of
        Inl e \<Rightarrow> Inl e
      | Inr (d', it2) \<Rightarrow> Inr ((k, v') # d', it2)))"

section \<open>Serializer call and program entry\<close>

text \<open>
  \<open>yaml.dump(result, allow_unicode=True, default_flow_style=False)\<close>: the call names two
  keyword arguments and leaves \<open>sort_keys\<close> at the default of \<open>yaml.dump\<close>, which is
  \<open>True\<close>. The library is not part of the repository; of it the model keeps only the
  order in which its representer writes the entries of a mapping: with \<open>sort_keys\<close> it
  writes \<open>sorted(mapping.items())\<close>, otherwise the items as they come. The keys of a dict
  are distinct, so the order of the item pairs is the order of the keys, which Python
  compares code point by code point.
\<close>

record dump_kwargs =
  allow_unicode :: bool
  default_flow_style :: bool
  sort_keys :: bool

definition yaml_dump_kwargs :: dump_kwargs where
  "yaml_dump_kwargs = \<lparr>allow_unicode = True, default_flow_style = False, sort_keys = True\<rparr>"

definition represent_mapping ::
  "dump_kwargs \<Rightarrow> (string \<times> 'v) list \<Rightarrow> (string \<times> 'v) list" where
  "represent_mapping kw mapping = (if sort_keys kw then sort_key fst mapping else mapping)"

text \<open>
  The node tree the representer builds for a value, as far as the order of mapping
  entries goes: a dict becomes a mapping node whose entries are written in the order of
  \<open>represent_mapping\<close>, at every depth; a tuple becomes a sequence node; an \<open>int\<close>, a
  \<open>str\<close> and \<open>None\<close> become scalars. Sorting the items by key and representing their
  values commute, so the values are represented first here.
\<close>

datatype yaml_node =
    ScalarNode pyval
  | MappingNode "(string \<times> yaml_node) list"
  | SequenceNode "yaml_node list"

fun represent_data :: "dump_kwargs \<Rightarrow> pyval \<Rightarrow> yaml_node"
  and represent_items :: "dump_kwargs \<Rightarrow> (string \<times> pyval) list \<Rightarrow> (string \<times> yaml_node) list"
  and represent_sequence :: "dump_kwargs \<Rightarrow> pyval list \<Rightarrow> yaml_node list"
where
  "represent_data kw (PDict d) = MappingNode (represent_mapping kw (represent_items kw d))"
| "represent_data kw (PTuple xs) = SequenceNode (represent_sequence kw xs)"
| "represent_data kw PNone = ScalarNode PNone"
| "represent_data kw (PInt i) = ScalarNode (PInt i)"
| "represent_data kw (PStr s) = ScalarNode (PStr s)"
| "represent_items kw [] = []"
| "represent_items kw ((k, v) # d) = (k, represent_data kw v) # represent_items kw d"
| "represent_sequence kw [] = []"
| "represent_sequence kw (x # xs) = represent_data kw x # represent_sequence kw xs"


text \<open>The loop of \<open>main\<close> over the statements: it stops at the first failure, with the
  state reached so far.\<close>

fun run_statements :: "interp \<Rightarrow> pyval list \<Rightarrow> interp \<times> failure option" where
  "run_statements it [] = (it, None)"
| "run_statements it (stmt # ast) =
     (case evaluate it stmt of
        Inl e \<Rightarrow> (it, Some e)
      | Inr (_, it1) \<Rightarrow> run_statements it1 ast)"

text \<open>
  \<open>main\<close> after the file has been read: what was printed to standard output (the values
  handed to the serializer, in order), the exit code, and the failure reported on the
  error stream, if any. Argument handling and file reading are outside the model. The
  result is \<open>None\<close> only if the parser's fuel ran out.
\<close>

record outcome =
  out :: "pyval list"
  exit_code :: nat
  err :: "failure option"

definition main :: "string \<Rightarrow> outcome option" where
  "main content =
     (case parse_all (Parser content) of
        None \<Rightarrow> None
      | Some (Inl e) \<Rightarrow> Some \<lparr>out = [], exit_code = 1, err = Some e\<rparr>
      | Some (Inr ast) \<Rightarrow>
          (case run_statements Interpreter ast of
             (it, None) \<Rightarrow> Some \<lparr>out = printed it, exit_code = 0, err = None\<rparr>
           | (it, Some e) \<Rightarrow> Some \<lparr>out = printed it, exit_code = 1, err = Some e\<rparr>))"

section \<open>Notions used in the statements\<close>

text \<open>The tuples the parser builds.\<close>

abbreviation let_node :: "string \<Rightarrow> pyval \<Rightarrow> pyval" where
  "let_node name v \<equiv> PTuple [PStr ''let'', PStr name, v]"

abbreviation q_node :: "pyval \<Rightarrow> pyval" where
  "q_node v \<equiv> PTuple [PStr ''q'', v]"

abbreviation var_node :: "string \<Rightarrow> pyval" where
  "var_node name \<equiv> PTuple [PStr ''var'', PStr name]"

text \<open>Line and column after one more character: a newline starts the next line at
  column 1, any other character moves one column to the right.\<close>

fun advance :: "nat \<times> nat \<Rightarrow> char \<Rightarrow> nat \<times> nat" where
  "advance (l, c) ch = (if ch = NL then (l + 1, 1) else (l, c + 1))"

text \<open>The whitespace the specification names: space, tab and newline.\<close>

definition spec_whitespace :: "char \<Rightarrow> bool" where
  "spec_whitespace c = (c \<in> set [CHR '' '', CHR 0x09, NL])"

text \<open>A bare statement: what \<open>parse_expression\<close> returns, a number, a string, a dict
  or a variable reference.\<close>

fun is_bare :: "pyval \<Rightarrow> bool" where
  "is_bare (PInt i) = True"
| "is_bare (PStr s) = True"
| "is_bare (PDict d) = True"
| "is_bare (PTuple [tag, PStr n]) = (tag = PStr ''var'')"
| "is_bare v = False"

text \<open>Every mapping of a node tree, at every depth, has its keys in sorted order; and
  the keys of a mapping node in the order written.\<close>

fun mappings_sorted :: "yaml_node \<Rightarrow> bool"
  and entries_sorted :: "(string \<times> yaml_node) list \<Rightarrow> bool"
  and nodes_sorted :: "yaml_node list \<Rightarrow> bool"
where
  "mappings_sorted (ScalarNode v) = True"
| "mappings_sorted (MappingNode es) = (sorted (map fst es) \<and> entries_sorted es)"
| "mappings_sorted (SequenceNode ns) = nodes_sorted ns"
| "entries_sorted [] = True"
| "entries_sorted ((k, n) # es) = (mappings_sorted n \<and> entries_sorted es)"
| "nodes_sorted [] = True"
| "nodes_sorted (n # ns) = (mappings_sorted n \<and> nodes_sorted ns)"

fun mapping_keys :: "yaml_node \<Rightarrow> string list" where
  "mapping_keys (MappingNode es) = map fst es"
| "mapping_keys n = []"

text \<open>
  Resolution as the specification describes it: the value with every variable reference
  replaced by the value currently bound to the name, a dict keeping its entries in their
  order with every entry's value resolved. A reference to an unbound name has no
  resolution and is left as it is (the code fails there).
\<close>

fun resolution :: "(pyval \<rightharpoonup> pyval) \<Rightarrow> pyval \<Rightarrow> pyval"
  and resolution_items :: "(pyval \<rightharpoonup> pyval) \<Rightarrow> (string \<times> pyval) list \<Rightarrow> (string \<times> pyval) list"
where
  "resolution env (PDict d) = PDict (resolution_items env d)"
| "resolution env (PTuple [tag, name]) =
     (if tag = PStr ''var''
      then (case env name of Some v \<Rightarrow> v | None \<Rightarrow> PTuple [tag, name])
      else PTuple [tag, name])"
| "resolution env v = v"
| "resolution_items env [] = []"
| "resolution_items env ((k, v) # d) = (k, resolution env v) # resolution_items env d"

text \<open>
  Strictly sequential execution as the specification describes it: a \<open>let\<close> binds the
  name to the resolution of its value in the environment current at that point and
  prints nothing, a \<open>q\<close> prints the resolution of its argument in the environment current
  at that point, any other statement has no effect. The program's effect is the final
  environment and the values printed, in order.
\<close>

fun statement_effect :: "(pyval \<rightharpoonup> pyval) \<Rightarrow> pyval \<Rightarrow> (pyval \<rightharpoonup> pyval) \<times> pyval list" where
  "statement_effect env (PTuple [tag, name, e]) =
     (if tag = PStr ''let'' then (env(name \<mapsto> resolution env e), []) else (env, []))"
| "statement_effect env (PTuple [tag, e]) =
     (if tag = PStr ''q'' then (env, [resolution env e]) else (env, []))"
| "statement_effect env stmt = (env, [])"

fun program_effect :: "(pyval \<rightharpoonup> pyval) \<Rightarrow> pyval list \<Rightarrow> (pyval \<rightharpoonup> pyval) \<times> pyval list" where
  "program_effect env [] = (env, [])"
| "program_effect env (stmt # prog) =
     (case statement_effect env stmt of
        (env1, out1) \<Rightarrow>
          (case program_effect env1 prog of
             (env2, out2) \<Rightarrow> (env2, out1 @ out2)))"

text \<open>Progress of the parser state: the text is the same and the position has not
  moved back (\<open>follows\<close>), or has moved forward and is still inside the text
  (\<open>advances\<close>).\<close>

definition follows :: "parser \<Rightarrow> parser \<Rightarrow> bool" where
  "follows st st' = (ptext st' = ptext st \<and> pos st \<le> pos st')"

definition advances :: "parser \<Rightarrow> parser \<Rightarrow> bool" where
  "advances st st' =
     (ptext st' = ptext st \<and> pos st < pos st' \<and> pos st' \<le> length (ptext st))"

text \<open>
  The body of a string literal as the specification describes it, on the text after the
  opening quote: the content of the literal and the text after the closing quote, or
  \<open>None\<close> when the text ends before an unescaped quote. A backslash takes the next
  character with it, whatever it is, and both are kept.
\<close>

fun string_body :: "string \<Rightarrow> (string \<times> string) option" where
  "string_body [] = None"
| "string_body (c # cs) =
     (if c = DQUOTE then Some ([], cs)
      else if c = BACKSLASH then
        (case cs of
           [] \<Rightarrow> None
         | c' # cs' \<Rightarrow>
             (case string_body cs' of
                None \<Rightarrow> None
              | Some (s, rest) \<Rightarrow> Some (c # c' # s, rest)))
      else
        (case string_body cs of
           None \<Rightarrow> None
         | Some (s, rest) \<Rightarrow> Some (c # s, rest)))"

text \<open>
  The entries of a dict literal in source order, duplicates included: the loop of
  \<open>parse_dict\<close> with the pairs it assigns collected in a list instead of stored in
  \<open>result\<close>. \<open>assign_all\<close> performs the assignments \<open>result[key] = value\<close> in order, and
  \<open>first_occurrences\<close> keeps the first occurrence of every element of a list.
\<close>

fun parse_dict_entries ::
  "nat \<Rightarrow> bool \<Rightarrow> parser \<Rightarrow> (failure + (string \<times> pyval) list \<times> parser) option" where
  "parse_dict_entries 0 first st0 = None"
| "parse_dict_entries (Suc n) first st0 =
     (if pos st0 < length (ptext st0) then
        let st = skip_whitespace st0 in
        if pos st < length (ptext st) \<and> ptext st ! pos st = CHR ''}''
        then Some (Inr ([], st))
        else
     (case (if \<not> first then match (Lit '','') st else Inr ([], st)) of
        Inl e \<Rightarrow> Some (Inl e)
      | Inr (_, st1) \<Rightarrow>
     (case parse_identifier st1 of
        Inl e \<Rightarrow> Some (Inl e)
      | Inr (key, st2) \<Rightarrow>
     (case match (Lit ''=>'') st2 of
        Inl e \<Rightarrow> Some (Inl e)
      | Inr (_, st3) \<Rightarrow>
     (case parse_value_fuel n st3 of
        None \<Rightarrow> None
      | Some (Inl e) \<Rightarrow> Some (Inl e)
      | Some (Inr (value, st4)) \<Rightarrow>
     (case parse_dict_entries n False st4 of
        None \<Rightarrow> None
      | Some (Inl e) \<Rightarrow> Some (Inl e)
      | Some (Inr (entries, st5)) \<Rightarrow> Some (Inr ((key, value) # entries, st5)))))))
      else Some (Inr ([], st0)))"

primrec keep_first :: "'a list \<Rightarrow> 'a list \<Rightarrow> 'a list" where
  "keep_first seen [] = []"
| "keep_first seen (x # xs) =
     (if x \<in> set seen then keep_first seen xs else x # keep_first (x # seen) xs)"

definition first_occurrences :: "'a list \<Rightarrow> 'a list" where
  "first_occurrences xs = keep_first [] xs"

definition assign_all :: "('k \<times> 'v) list \<Rightarrow> ('k \<times> 'v) list \<Rightarrow> ('k \<times> 'v) list" where
  "assign_all d entries = foldl (\<lambda>r (k, v). dict_setitem r k v) d entries"

section \<open>Lemmas on the interpreter\<close>

lemma map_of_dict_setitem: "map_of (dict_setitem d k v) = (map_of d)(k \<mapsto> v)"
  by (induction d) (auto simp: fun_eq_iff)

lemma map_insort_key: "map f (insort_key f x xs) = insort (f x) (map f xs)"
  by (induction xs) auto

lemma map_sort_key: "map f (sort_key f xs) = sort (map f xs)"
  by (induction xs) (auto simp: map_insort_key)

lemma evaluate_var_state:
  "evaluate it (PTuple (PStr ''var'' # xs)) = Inr (r, it') \<Longrightarrow> it' = it"
  by (simp split: list.splits option.splits if_splits)

lemma eval_items_state_aux:
  assumes "\<And>k v it r it'. (k, v) \<in> set d \<Longrightarrow> eval_value it v = Inr (r, it') \<Longrightarrow> it' = it"
  shows "eval_items it d = Inr (d', it') \<Longrightarrow> it' = it"
  using assms
proof (induction d arbitrary: it d' it')
  case Nil
  then show ?case by simp
next
  case (Cons a d)
  obtain k v where a: "a = (k, v)" by (cases a)
  from Cons.prems(1) obtain v' it1 d1 it2 where
    1: "eval_value it v = Inr (v', it1)" and 2: "eval_items it1 d = Inr (d1, it2)" and 3: "it' = it2"
    by (auto simp: a split: sum.splits)
  have "it1 = it" using Cons.prems(2) [of k v it v' it1] 1 by (simp add: a)
  moreover have "it2 = it1"
  proof (rule Cons.IH [OF 2])
    fix k v it r it'
    assume "(k, v) \<in> set d" "eval_value it v = Inr (r, it')"
    then show "it' = it" using Cons.prems(2) [of k v it r it'] by simp
  qed
  ultimately show ?case using 3 by simp
qed

lemma eval_value_state: "eval_value it v = Inr (r, it') \<Longrightarrow> it' = it"
proof (induction v arbitrary: it r it')
  case (PDict d)
  have "\<And>k v it r it'. (k, v) \<in> set d \<Longrightarrow> eval_value it v = Inr (r, it') \<Longrightarrow> it' = it"
  proof -
    fix k v it r it'
    assume "(k, v) \<in> set d" "eval_value it v = Inr (r, it')"
    then show "it' = it" using PDict.IH [of "(k, v)" v it r it'] by simp
  qed
  from eval_items_state_aux [OF this] PDict.prems show ?case
    by (auto split: sum.splits)
next
  case (PTuple xs)
  show ?case
  proof (cases xs)
    case Nil
    with PTuple.prems show ?thesis by simp
  next
    case (Cons tag rest)
    show ?thesis
    proof (cases "tag = PStr ''var''")
      case True
      with PTuple.prems Cons show ?thesis
        using evaluate_var_state [of it rest r it'] by simp
    next
      case False
      with PTuple.prems Cons show ?thesis by simp
    qed
  qed
qed simp_all

lemma run_statements_append:
  "run_statements it (pre @ post) =
     (case run_statements it pre of
        (it1, None) \<Rightarrow> run_statements it1 post
      | (it1, Some e) \<Rightarrow> (it1, Some e))"
  by (induction pre arbitrary: it) (auto split: sum.splits)

lemma resolution_items_map:
  "resolution_items env d = map (\<lambda>(k, v). (k, resolution env v)) d"
  by (induction d) auto

lemma eval_items_resolution_aux:
  assumes "\<And>k v it r it'. (k, v) \<in> set d \<Longrightarrow> eval_value it v = Inr (r, it')
             \<Longrightarrow> r = resolution (map_of (variables it)) v"
  shows "eval_items it d = Inr (d', it') \<Longrightarrow> d' = resolution_items (map_of (variables it)) d"
  using assms
proof (induction d arbitrary: d' it')
  case Nil
  then show ?case by simp
next
  case (Cons a d)
  obtain k v where a: "a = (k, v)" by (cases a)
  from Cons.prems(1) obtain v' it1 d1 it2 where
    1: "eval_value it v = Inr (v', it1)" and 2: "eval_items it1 d = Inr (d1, it2)"
    and 3: "d' = (k, v') # d1"
    by (auto simp: a split: sum.splits)
  have i: "it1 = it" using 1 by (rule eval_value_state)
  have "v' = resolution (map_of (variables it)) v"
    using Cons.prems(2) [of k v it v' it1] 1 by (simp add: a)
  moreover have "d1 = resolution_items (map_of (variables it)) d"
  proof (rule Cons.IH)
    show "eval_items it d = Inr (d1, it2)" using 2 i by simp
  next
    fix k v it r it'
    assume "(k, v) \<in> set d" "eval_value it v = Inr (r, it')"
    then show "r = resolution (map_of (variables it)) v"
      using Cons.prems(2) [of k v it r it'] by simp
  qed
  ultimately show ?case using 3 by (simp add: a)
qed

lemma evaluate_var_resolution:
  "evaluate it (PTuple (PStr ''var'' # xs)) = Inr (r, it') \<Longrightarrow>
     r = resolution (map_of (variables it)) (PTuple (PStr ''var'' # xs))"
  by (auto split: list.splits option.splits if_splits)

lemma resolution_other_tuple:
  "tag \<noteq> PStr ''var'' \<Longrightarrow> resolution env (PTuple (tag # rest)) = PTuple (tag # rest)"
proof (cases rest)
  case Nil
  then show ?thesis by simp
next
  case (Cons a r2)
  assume "tag \<noteq> PStr ''var''"
  with Cons show ?thesis by (cases r2) simp_all
qed


lemma eval_value_resolution:
  "eval_value it v = Inr (r, it') \<Longrightarrow> r = resolution (map_of (variables it)) v"
proof (induction v arbitrary: it r it')
  case (PDict d)
  have "\<And>k v it r it'. (k, v) \<in> set d \<Longrightarrow> eval_value it v = Inr (r, it')
          \<Longrightarrow> r = resolution (map_of (variables it)) v"
  proof -
    fix k v it r it'
    assume "(k, v) \<in> set d" "eval_value it v = Inr (r, it')"
    then show "r = resolution (map_of (variables it)) v"
      using PDict.IH [of "(k, v)" v it r it'] by simp
  qed
  from eval_items_resolution_aux [OF this] PDict.prems show ?case
    by (auto split: sum.splits)
next
  case (PTuple xs)
  show ?case
  proof (cases xs)
    case Nil
    with PTuple.prems show ?thesis by simp
  next
    case (Cons tag rest)
    show ?thesis
    proof (cases "tag = PStr ''var''")
      case True
      with PTuple.prems Cons show ?thesis
        using evaluate_var_resolution [of it rest r it'] by simp
    next
      case False
      with PTuple.prems Cons have "r = PTuple (tag # rest)" by simp
      then show ?thesis
        using resolution_other_tuple [OF False] Cons by simp
    qed
  qed
qed simp_all

lemma evaluate_effect:
  assumes "evaluate it stmt = Inr (r, it')"
  shows "map_of (variables it') = fst (statement_effect (map_of (variables it)) stmt) \<and>
         printed it' = printed it @ snd (statement_effect (map_of (variables it)) stmt)"
proof (cases stmt)
  case (PTuple xs)
  show ?thesis
  proof (cases xs)
    case Nil
    with assms PTuple show ?thesis by simp
  next
    case (Cons tag rest)
    consider (l) "tag = PStr ''let''" | (q) "tag = PStr ''q''" | (v) "tag = PStr ''var''"
      | (o) "tag \<notin> {PStr ''let'', PStr ''q'', PStr ''var''}" by blast
    then show ?thesis
    proof cases
      case l
      with assms PTuple Cons obtain name e where rest: "rest = [name, e]"
        by (auto split: list.splits)
      with assms PTuple Cons l obtain w it1 where e: "eval_value it e = Inr (w, it1)"
        and h: "hashable name"
        and i: "it' = it1\<lparr>variables := dict_setitem (variables it1) name w\<rparr>"
        by (auto split: sum.splits if_splits)
      have "it1 = it" using e by (rule eval_value_state)
      moreover have "w = resolution (map_of (variables it)) e" using e by (rule eval_value_resolution)
      ultimately show ?thesis
        using i by (simp add: PTuple Cons l rest map_of_dict_setitem)
    next
      case q
      with assms PTuple Cons obtain e where rest: "rest = [e]"
        by (auto split: list.splits)
      with assms PTuple Cons q obtain w it1 where e: "eval_value it e = Inr (w, it1)"
        and i: "it' = it1\<lparr>printed := printed it1 @ [w]\<rparr>"
        by (auto split: sum.splits)
      have "it1 = it" using e by (rule eval_value_state)
      moreover have "w = resolution (map_of (variables it)) e" using e by (rule eval_value_resolution)
      ultimately show ?thesis
        using i by (simp add: PTuple Cons q rest)
    next
      case v
      with assms PTuple Cons obtain name where rest: "rest = [name]"
        by (auto split: list.splits)
      have "it' = it" using evaluate_var_state [of it rest r it'] assms PTuple Cons v by simp
      then show ?thesis by (simp add: PTuple Cons v rest)
    next
      case o
      with assms PTuple Cons show ?thesis by simp
    qed
  qed
qed (use assms in auto)

lemma program_effect_run:
  "run_statements it prog = (it', None) \<Longrightarrow>
     map_of (variables it') = fst (program_effect (map_of (variables it)) prog) \<and>
     printed it' = printed it @ snd (program_effect (map_of (variables it)) prog)"
proof (induction prog arbitrary: it)
  case Nil
  then show ?case by simp
next
  case (Cons stmt prog)
  from Cons.prems obtain r it1 where e: "evaluate it stmt = Inr (r, it1)"
    and rest: "run_statements it1 prog = (it', None)"
    by (auto split: sum.splits)
  from evaluate_effect [OF e] Cons.IH [OF rest] show ?case
    by (simp split: prod.splits)
qed

lemma map_fst_represent_items: "map fst (represent_items kw d) = map fst d"
  by (induction d) auto

lemma entries_sorted_iff: "entries_sorted es \<longleftrightarrow> (\<forall>e \<in> set es. mappings_sorted (snd e))"
  by (induction es) auto

lemma represent_sorted:
  "mappings_sorted (represent_data yaml_dump_kwargs v)"
  "entries_sorted (represent_items yaml_dump_kwargs d)"
  "nodes_sorted (represent_sequence yaml_dump_kwargs xs)"
proof (induction yaml_dump_kwargs v and yaml_dump_kwargs d and yaml_dump_kwargs xs
    rule: represent_data_represent_items_represent_sequence.induct)
  case (1 d)
  then show ?case
    by (simp add: represent_mapping_def yaml_dump_kwargs_def entries_sorted_iff)
qed simp_all

lemma mapping_keys_represent:
  "mapping_keys (represent_data yaml_dump_kwargs (PDict d)) = sort (map fst d)"
  by (simp add: represent_mapping_def yaml_dump_kwargs_def map_sort_key map_fst_represent_items)

section \<open>Lemmas on the scanner\<close>

lemma skip_whitespace_run:
  "skip_whitespace st =
     (let ws = takeWhile isspace (drop (pos st) (ptext st));
          lc = foldl advance (line st, col st) ws
      in st\<lparr>pos := pos st + length ws, line := fst lc, col := snd lc\<rparr>)"
proof (induction st rule: skip_whitespace.induct)
  case (1 st)
  show ?case
  proof (cases "pos st < length (ptext st) \<and> isspace (ptext st ! pos st)")
    case True
    then have d: "drop (pos st) (ptext st) = ptext st ! pos st # drop (Suc (pos st)) (ptext st)"
      by (simp add: Cons_nth_drop_Suc)
    show ?thesis
      using True "1.IH" d
      by (subst skip_whitespace.simps) (simp add: Let_def)
  next
    case False
    then have "takeWhile isspace (drop (pos st) (ptext st)) = []"
      by (cases "pos st < length (ptext st)") (auto simp: Cons_nth_drop_Suc [symmetric])
    then show ?thesis
      using False by (subst skip_whitespace.simps) (auto simp: Let_def)
  qed
qed

lemma follows_refl: "follows st st"
  by (simp add: follows_def)

lemma advances_trans: "advances a b \<Longrightarrow> advances b c \<Longrightarrow> advances a c"
  by (auto simp: advances_def)

lemma skip_whitespace_follows: "follows st (skip_whitespace st)"
  by (subst skip_whitespace_run) (simp add: follows_def Let_def)

lemma skip_whitespace_ptext [simp]: "ptext (skip_whitespace st) = ptext st"
  using skip_whitespace_follows [of st] by (simp add: follows_def)

lemma skip_whitespace_at_token:
  "pos st < length (ptext st) \<Longrightarrow> \<not> isspace (ptext st ! pos st) \<Longrightarrow> skip_whitespace st = st"
  by (subst skip_whitespace.simps) simp

lemma re_match_token:
  "re_match pat s = Some tok \<Longrightarrow> pat \<noteq> Lit [] \<Longrightarrow> tok \<noteq> [] \<and> length tok \<le> length s"
proof (cases pat)
  case Digits
  assume "re_match pat s = Some tok"
  with Digits show ?thesis
    by (auto split: if_splits intro: length_takeWhile_le)
next
  case Ident
  assume "re_match pat s = Some tok"
  with Ident show ?thesis
    by (auto split: if_splits intro: length_takeWhile_le)
next
  case (Lit t)
  assume "re_match pat s = Some tok" "pat \<noteq> Lit []"
  with Lit have "take (length t) s = t" "tok = t" "t \<noteq> []"
    by (auto split: if_splits)
  moreover have "length t \<le> length s"
    using arg_cong [OF \<open>take (length t) s = t\<close>, of length] by simp
  ultimately show ?thesis by simp
qed

lemma match_Inr:
  assumes "match pat st = Inr (tok, st')"
  shows "re_match pat (drop (pos (skip_whitespace st)) (ptext st)) = Some tok"
    and "st' = (skip_whitespace st)\<lparr>pos := pos (skip_whitespace st) + length tok,
                                     col := col (skip_whitespace st) + length tok\<rparr>"
  using assms by (auto simp: match_def Let_def split: option.splits)

lemma match_advances:
  assumes "match pat st = Inr (tok, st')" and "pat \<noteq> Lit []"
  shows "advances st st'"
proof -
  let ?s = "skip_whitespace st"
  have t: "tok \<noteq> []" "length tok \<le> length (drop (pos ?s) (ptext st))"
    using re_match_token [OF match_Inr(1) [OF assms(1)] assms(2)] by auto
  have f: "pos st \<le> pos ?s" using skip_whitespace_follows [of st] by (simp add: follows_def)
  obtain c cs where l: "tok = c # cs" using t(1) by (cases tok) auto
  show ?thesis
    using t(2) f match_Inr(2) [OF assms(1)] by (simp add: advances_def l)
qed

lemma parse_number_advances: "parse_number st = Inr (v, st') \<Longrightarrow> advances st st'"
  by (auto simp: parse_number_def split: sum.splits intro: match_advances)

lemma parse_identifier_advances: "parse_identifier st = Inr (v, st') \<Longrightarrow> advances st st'"
  by (auto simp: parse_identifier_def intro: match_advances)

lemma parse_var_advances:
  assumes "parse_var st = Inr (v, st')"
  shows "advances st st'"
proof -
  from assms obtain a st1 b st2 n st3 c where
    "match (Lit ''$'') st = Inr (a, st1)" "match (Lit ''['') st1 = Inr (b, st2)"
    "parse_identifier st2 = Inr (n, st3)" "match (Lit '']'') st3 = Inr (c, st')"
    by (auto simp: parse_var_def split: sum.splits)
  then have "advances st st1" "advances st1 st2" "advances st2 st3" "advances st3 st'"
    by (auto intro: match_advances parse_identifier_advances)
  then show ?thesis by (blast intro: advances_trans)
qed

lemma string_scan_ge: "p \<le> string_scan t p"
proof (induction t p rule: string_scan.induct)
  case (1 t p)
  show ?case
    by (subst string_scan.simps) (use 1 in \<open>auto simp: le_Suc_eq\<close>)
qed

lemma parse_string_advances:
  assumes "parse_string st = Inr (v, st')"
  shows "advances st st'"
proof -
  from assms obtain a st1 where 1: "match (Lit [DQUOTE]) st = Inr (a, st1)"
    by (auto simp: parse_string_def split: sum.splits)
  let ?st2 = "st1\<lparr>pos := string_scan (ptext st1) (pos st1)\<rparr>"
  from assms 1 obtain b where 2: "match (Lit [DQUOTE]) ?st2 = Inr (b, st')"
    by (auto simp: parse_string_def Let_def split: sum.splits if_splits)
  have "advances st st1" using 1 by (auto intro: match_advances)
  moreover have "follows st1 ?st2" by (simp add: follows_def string_scan_ge)
  moreover have "advances ?st2 st'" using 2 by (auto intro: match_advances)
  ultimately show ?thesis
    by (auto simp: advances_def follows_def)
qed

section \<open>Lemmas on the parser\<close>

text \<open>Every successful parsing function moves forward in the same text, and the fuel
  that \<open>parse_value\<close> and \<open>parse_all\<close> supply never runs out.\<close>

lemma parse_dict_fuel_Inr:
  assumes "parse_dict_fuel n st = Some (Inr (v, st'))"
  obtains a st1 r st2 b where
    "match (Lit ''{'') st = Inr (a, st1)"
    "parse_dict_loop n True [] st1 = Some (Inr (r, st2))"
    "match (Lit ''}'') st2 = Inr (b, st')" "v = PDict r"
  using assms by (auto split: sum.splits option.splits)

lemma parse_dict_fuel_None:
  assumes "parse_dict_fuel n st = None"
  obtains a st1 where
    "match (Lit ''{'') st = Inr (a, st1)" "parse_dict_loop n True [] st1 = None"
  using assms by (auto split: sum.splits option.splits)

lemma parse_dict_loop_iter:
  assumes "parse_dict_loop (Suc n) first result st0 = Some (Inr (d, st'))"
    and "pos st0 < length (ptext st0)"
    and "\<not> (pos (skip_whitespace st0) < length (ptext st0) \<and>
            ptext st0 ! pos (skip_whitespace st0) = CHR ''}'')"
  obtains st1 key st2 a st3 v st4 where
    "follows st0 st1"
    "first \<and> st1 = skip_whitespace st0 \<or>
     \<not> first \<and> (\<exists>c. match (Lit '','') (skip_whitespace st0) = Inr (c, st1))"
    "parse_identifier st1 = Inr (key, st2)"
    "match (Lit ''=>'') st2 = Inr (a, st3)"
    "parse_value_fuel n st3 = Some (Inr (v, st4))"
    "parse_dict_loop n False (dict_setitem result key v) st4 = Some (Inr (d, st'))"
proof -
  let ?s = "skip_whitespace st0"
  obtain c st1 where 1: "(if \<not> first then match (Lit '','') ?s else Inr ([], ?s)) = Inr (c, st1)"
    using assms by (cases "if \<not> first then match (Lit '','') ?s else Inr ([], ?s)") (auto simp: Let_def)
  have f: "follows st0 st1"
  proof (cases first)
    case True
    with 1 show ?thesis using skip_whitespace_follows [of st0] by auto
  next
    case False
    with 1 have "match (Lit '','') ?s = Inr (c, st1)" by simp
    then have "advances ?s st1" by (rule match_advances) simp
    then show ?thesis
      using skip_whitespace_follows [of st0] by (auto simp: follows_def advances_def)
  qed
  have w: "first \<and> st1 = ?s \<or> \<not> first \<and> (\<exists>c. match (Lit '','') ?s = Inr (c, st1))"
    using 1 by (cases first) auto
  obtain key st2 where 2: "parse_identifier st1 = Inr (key, st2)"
    using assms 1 by (cases "parse_identifier st1") (auto simp: Let_def)
  obtain a st3 where 3: "match (Lit ''=>'') st2 = Inr (a, st3)"
    using assms 1 2 by (cases "match (Lit ''=>'') st2") (auto simp: Let_def)
  obtain v st4 where 4: "parse_value_fuel n st3 = Some (Inr (v, st4))"
    using assms 1 2 3 by (cases "parse_value_fuel n st3") (auto simp: Let_def split: sum.splits)
  have 5: "parse_dict_loop n False (dict_setitem result key v) st4 = Some (Inr (d, st'))"
    using assms 1 2 3 4 by (simp add: Let_def)
  show ?thesis using that [OF f w 2 3 4 5] .
qed

lemma parse_dict_loop_None:
  assumes "parse_dict_loop (Suc n) first result st0 = None"
  obtains st1 key st2 a st3 where
    "pos st0 < length (ptext st0)"
    "follows st0 st1"
    "parse_identifier st1 = Inr (key, st2)"
    "match (Lit ''=>'') st2 = Inr (a, st3)"
    "parse_value_fuel n st3 = None \<or>
     (\<exists>v st4. parse_value_fuel n st3 = Some (Inr (v, st4)) \<and>
        parse_dict_loop n False (dict_setitem result key v) st4 = None)"
proof -
  let ?s = "skip_whitespace st0"
  have p: "pos st0 < length (ptext st0)"
    using assms by (auto split: if_splits)
  have q: "\<not> (pos ?s < length (ptext ?s) \<and> ptext ?s ! pos ?s = CHR ''}'')"
    using assms p by (auto simp: Let_def split: if_splits)
  obtain c st1 where 1: "(if \<not> first then match (Lit '','') ?s else Inr ([], ?s)) = Inr (c, st1)"
    using assms p q by (cases "if \<not> first then match (Lit '','') ?s else Inr ([], ?s)") (auto simp: Let_def)
  have f: "follows st0 st1"
  proof (cases first)
    case True
    with 1 show ?thesis using skip_whitespace_follows [of st0] by auto
  next
    case False
    with 1 have "match (Lit '','') ?s = Inr (c, st1)" by simp
    then have "advances ?s st1" by (rule match_advances) simp
    then show ?thesis
      using skip_whitespace_follows [of st0] by (auto simp: follows_def advances_def)
  qed
  obtain key st2 where 2: "parse_identifier st1 = Inr (key, st2)"
    using assms p q 1 by (cases "parse_identifier st1") (auto simp: Let_def)
  obtain a st3 where 3: "match (Lit ''=>'') st2 = Inr (a, st3)"
    using assms p q 1 2 by (cases "match (Lit ''=>'') st2") (auto simp: Let_def)
  have 4: "parse_value_fuel n st3 = None \<or>
     (\<exists>v st4. parse_value_fuel n st3 = Some (Inr (v, st4)) \<and>
        parse_dict_loop n False (dict_setitem result key v) st4 = None)"
    using assms p q 1 2 3
    by (cases "parse_value_fuel n st3") (auto simp: Let_def split: sum.splits)
  show ?thesis using that [OF p f 2 3 4] .
qed

lemma parse_value_fuel_Inr:
  assumes "parse_value_fuel (Suc n) st0 = Some (Inr (v, st'))"
  shows "pos (skip_whitespace st0) < length (ptext st0) \<and>
     (parse_number (skip_whitespace st0) = Inr (v, st') \<or>
      parse_string (skip_whitespace st0) = Inr (v, st') \<or>
      parse_dict_fuel n (skip_whitespace st0) = Some (Inr (v, st')) \<or>
      parse_var (skip_whitespace st0) = Inr (v, st'))"
  using assms by (auto simp: Let_def split: if_splits)

lemma parse_value_fuel_None:
  assumes "parse_value_fuel (Suc n) st0 = None"
  shows "pos (skip_whitespace st0) < length (ptext st0) \<and>
         parse_dict_fuel n (skip_whitespace st0) = None"
  using assms by (auto simp: Let_def split: if_splits)

lemma parse_progress:
  "(\<forall>st v st'. parse_value_fuel n st = Some (Inr (v, st')) \<longrightarrow> advances st st') \<and>
   (\<forall>first result st d st'.
      parse_dict_loop n first result st = Some (Inr (d, st')) \<longrightarrow> follows st st')"
proof (induction n)
  case 0
  show ?case by simp
next
  case (Suc n)
  have loop: "follows st st'"
    if "parse_dict_loop n first result st = Some (Inr (d, st'))" for first result st d st'
    using Suc that by blast
  have val: "advances st st'"
    if "parse_value_fuel n st = Some (Inr (v, st'))" for st v st'
    using Suc that by blast
  have dict: "advances st st'" if h: "parse_dict_fuel n st = Some (Inr (v, st'))" for st v st'
  proof -
    from h obtain a st1 r st2 b where
      a: "match (Lit ''{'') st = Inr (a, st1)"
      and b: "parse_dict_loop n True [] st1 = Some (Inr (r, st2))"
      and c: "match (Lit ''}'') st2 = Inr (b, st')"
      and e: "v = PDict r"
      by (rule parse_dict_fuel_Inr)
    have "advances st st1" using a by (rule match_advances) simp
    moreover have "follows st1 st2" using b by (rule loop)
    moreover have "advances st2 st'" using c by (rule match_advances) simp
    ultimately show ?thesis by (simp add: advances_def follows_def)
  qed
  have 1: "advances st st'" if h: "parse_value_fuel (Suc n) st = Some (Inr (v, st'))" for st v st'
  proof -
    have "advances (skip_whitespace st) st'"
      using parse_value_fuel_Inr [OF h]
      by (auto intro: parse_number_advances parse_string_advances parse_var_advances dict)
    then show ?thesis
      using skip_whitespace_follows [of st] by (auto simp: advances_def follows_def)
  qed
  have 2: "follows st st'"
    if h: "parse_dict_loop (Suc n) first result st = Some (Inr (d, st'))" for first result st d st'
  proof (cases "pos st < length (ptext st)")
    case False
    with h show ?thesis by (simp add: follows_refl)
  next
    case True
    show ?thesis
    proof (cases "pos (skip_whitespace st) < length (ptext st) \<and>
            ptext st ! pos (skip_whitespace st) = CHR ''}''")
      case brace: True
      with h True have "st' = skip_whitespace st" by (simp add: Let_def)
      then show ?thesis by (simp add: skip_whitespace_follows)
    next
      case False
      from h True False obtain st1 key st2 a st3 v st4 where
        a: "follows st st1" and b: "parse_identifier st1 = Inr (key, st2)"
        and c: "match (Lit ''=>'') st2 = Inr (a, st3)"
        and e: "parse_value_fuel n st3 = Some (Inr (v, st4))"
        and f: "parse_dict_loop n False (dict_setitem result key v) st4 = Some (Inr (d, st'))"
        by (rule parse_dict_loop_iter)
      have "advances st1 st2" using b by (rule parse_identifier_advances)
      moreover have "advances st2 st3" using c by (rule match_advances) simp
      moreover have "advances st3 st4" using e by (rule val)
      moreover have "follows st4 st'" using f by (rule loop)
      ultimately show ?thesis using a by (simp add: advances_def follows_def)
    qed
  qed
  show ?case using 1 2 by blast
qed

lemma parse_value_fuel_advances:
  "parse_value_fuel n st = Some (Inr (v, st')) \<Longrightarrow> advances st st'"
  using parse_progress by blast

lemma parse_fuel_enough:
  "(\<forall>st. length (ptext st) - pos st < n \<longrightarrow> parse_value_fuel n st \<noteq> None) \<and>
   (\<forall>first result st.
      length (ptext st) - pos st < n \<longrightarrow> parse_dict_loop n first result st \<noteq> None)"
proof (induction n)
  case 0
  show ?case by simp
next
  case (Suc n)
  have 1: "parse_value_fuel (Suc n) st \<noteq> None" if r: "length (ptext st) - pos st < Suc n" for st
  proof
    assume "parse_value_fuel (Suc n) st = None"
    then have p: "pos (skip_whitespace st) < length (ptext st)"
      and d: "parse_dict_fuel n (skip_whitespace st) = None"
      using parse_value_fuel_None by blast+
    from d obtain a st1 where m: "match (Lit ''{'') (skip_whitespace st) = Inr (a, st1)"
      and l: "parse_dict_loop n True [] st1 = None"
      by (rule parse_dict_fuel_None)
    have "advances (skip_whitespace st) st1" using m by (rule match_advances) simp
    then have "length (ptext st1) - pos st1 < n"
      using r skip_whitespace_follows [of st] by (auto simp: advances_def follows_def)
    with Suc l show False by blast
  qed
  have 2: "parse_dict_loop (Suc n) first result st \<noteq> None"
    if r: "length (ptext st) - pos st < Suc n" for first result st
  proof
    assume "parse_dict_loop (Suc n) first result st = None"
    then obtain st1 key st2 a st3 where p: "pos st < length (ptext st)"
      and c: "follows st st1" "parse_identifier st1 = Inr (key, st2)"
        "match (Lit ''=>'') st2 = Inr (a, st3)"
      and e: "parse_value_fuel n st3 = None \<or>
        (\<exists>v st4. parse_value_fuel n st3 = Some (Inr (v, st4)) \<and>
           parse_dict_loop n False (dict_setitem result key v) st4 = None)"
      by (rule parse_dict_loop_None)
    have "advances st1 st2" using c(2) by (rule parse_identifier_advances)
    moreover have "advances st2 st3" using c(3) by (rule match_advances) simp
    ultimately have t: "ptext st3 = ptext st" and r3: "length (ptext st3) - pos st3 < n"
      using r p c(1) by (auto simp: advances_def follows_def)
    from e show False
    proof
      assume "parse_value_fuel n st3 = None"
      with Suc r3 show False by blast
    next
      assume "\<exists>v st4. parse_value_fuel n st3 = Some (Inr (v, st4)) \<and>
           parse_dict_loop n False (dict_setitem result key v) st4 = None"
      then obtain v st4 where v: "parse_value_fuel n st3 = Some (Inr (v, st4))"
        and l: "parse_dict_loop n False (dict_setitem result key v) st4 = None" by blast
      have "advances st3 st4" using v by (rule parse_value_fuel_advances)
      then have "length (ptext st4) - pos st4 < n"
        using r3 by (auto simp: advances_def)
      with Suc l show False by blast
    qed
  qed
  show ?case using 1 2 by blast
qed

lemma parse_value_total: "parse_value st \<noteq> None"
  using parse_fuel_enough [of "Suc (length (ptext st))"] by (simp add: parse_value_def)

lemma parse_value_advances: "parse_value st = Some (Inr (v, st')) \<Longrightarrow> advances st st'"
  unfolding parse_value_def by (rule parse_value_fuel_advances)

lemma parse_value_Some: "\<exists>r. parse_value st = Some r"
  using parse_value_total [of st] by blast

lemma parse_let_Some: "\<exists>r. parse_let st = Some r"
  by (auto simp: parse_let_def parse_value_Some parse_value_total split: sum.splits option.splits)

lemma parse_q_Some: "\<exists>r. parse_q st = Some r"
  by (auto simp: parse_q_def parse_value_Some parse_value_total split: sum.splits option.splits)

lemma parse_expression_Some: "\<exists>r. parse_expression st = Some r"
  by (simp add: parse_expression_def Let_def parse_value_Some)

lemma parse_statement_Some: "\<exists>r. parse_statement st = Some r"
  by (simp add: parse_statement_def Let_def parse_let_Some parse_q_Some
      parse_expression_Some)

lemma parse_let_advances:
  assumes "parse_let st = Some (Inr (v, st'))"
  shows "advances st st'"
proof -
  from assms obtain a st1 where 1: "match (Lit ''let'') st = Inr (a, st1)"
    by (cases "match (Lit ''let'') st") (auto simp: parse_let_def)
  from assms 1 obtain name st2 where 2: "parse_identifier st1 = Inr (name, st2)"
    by (cases "parse_identifier st1") (auto simp: parse_let_def)
  from assms 1 2 obtain b st3 where 3: "match (Lit ''='') st2 = Inr (b, st3)"
    by (cases "match (Lit ''='') st2") (auto simp: parse_let_def)
  from assms 1 2 3 obtain w where 4: "parse_value st3 = Some (Inr (w, st'))"
    by (cases "parse_value st3") (auto simp: parse_let_def split: sum.splits)
  have "advances st st1" using 1 by (rule match_advances) simp
  moreover have "advances st1 st2" using 2 by (rule parse_identifier_advances)
  moreover have "advances st2 st3" using 3 by (rule match_advances) simp
  moreover have "advances st3 st'" using 4 by (rule parse_value_advances)
  ultimately show ?thesis by (simp add: advances_def)
qed

lemma parse_q_advances:
  assumes "parse_q st = Some (Inr (v, st'))"
  shows "advances st st'"
proof -
  from assms obtain a st1 where 1: "match (Lit ''q('') st = Inr (a, st1)"
    by (cases "match (Lit ''q('') st") (auto simp: parse_q_def)
  from assms 1 obtain w st2 where 2: "parse_value st1 = Some (Inr (w, st2))"
    by (cases "parse_value st1") (auto simp: parse_q_def split: sum.splits)
  from assms 1 2 obtain b where 3: "match (Lit '')'') st2 = Inr (b, st')"
    by (cases "match (Lit '')'') st2") (auto simp: parse_q_def)
  have "advances st st1" using 1 by (rule match_advances) simp
  moreover have "advances st1 st2" using 2 by (rule parse_value_advances)
  moreover have "advances st2 st'" using 3 by (rule match_advances) simp
  ultimately show ?thesis by (simp add: advances_def)
qed

lemma parse_expression_advances:
  assumes "parse_expression st = Some (Inr (v, st'))"
  shows "advances st st'"
proof -
  let ?s = "skip_whitespace st"
  have "parse_var ?s = Inr (v, st') \<or> parse_value ?s = Some (Inr (v, st'))"
    using assms by (auto simp: parse_expression_def Let_def split: if_splits)
  then have "advances ?s st'"
    by (auto intro: parse_var_advances parse_value_advances)
  then show ?thesis
    using skip_whitespace_follows [of st] by (simp add: advances_def follows_def)
qed

lemma parse_statement_advances:
  assumes "parse_statement st = Some (Inr (stmt, st'))" and "stmt \<noteq> PNone"
  shows "advances st st'"
proof -
  let ?s = "skip_whitespace st"
  have "parse_let ?s = Some (Inr (stmt, st')) \<or> parse_q ?s = Some (Inr (stmt, st')) \<or>
        parse_expression ?s = Some (Inr (stmt, st'))"
    using assms by (auto simp: parse_statement_def Let_def split: if_splits)
  then have "advances ?s st'"
    by (auto intro: parse_let_advances parse_q_advances parse_expression_advances)
  then show ?thesis
    using skip_whitespace_follows [of st] by (simp add: advances_def follows_def)
qed

lemma parse_all_loop_None:
  assumes "parse_all_loop (Suc n) statements st0 = None"
  obtains stmt st1 where "pos st0 < length (ptext st0)"
    "parse_statement (skip_whitespace st0) = Some (Inr (stmt, st1))" "stmt \<noteq> PNone"
    "parse_all_loop n (statements @ [stmt]) st1 = None"
proof -
  let ?s = "skip_whitespace st0"
  have p: "pos st0 < length (ptext st0)" using assms by (auto split: if_splits)
  have q: "\<not> length (ptext ?s) \<le> pos ?s" using assms p by (auto simp: Let_def split: if_splits)
  obtain r where r: "parse_statement ?s = Some r"
    using parse_statement_Some [of ?s] by blast
  obtain stmt st1 where 1: "r = Inr (stmt, st1)"
    using assms p q r by (cases r) (auto simp: Let_def)
  have 2: "stmt \<noteq> PNone" "parse_all_loop n (statements @ [stmt]) st1 = None"
    using assms p q r 1 by (auto simp: Let_def split: if_splits)
  show ?thesis using that [OF p _ 2] r 1 by simp
qed

lemma parse_all_loop_enough:
  "length (ptext st) - pos st < n \<Longrightarrow> parse_all_loop n statements st \<noteq> None"
proof (induction n arbitrary: st statements)
  case 0
  then show ?case by simp
next
  case (Suc n)
  show ?case
  proof
    assume "parse_all_loop (Suc n) statements st = None"
    then obtain stmt st1 where p: "pos st < length (ptext st)"
      and s: "parse_statement (skip_whitespace st) = Some (Inr (stmt, st1))" "stmt \<noteq> PNone"
      and l: "parse_all_loop n (statements @ [stmt]) st1 = None"
      by (rule parse_all_loop_None)
    have "advances (skip_whitespace st) st1" using s by (rule parse_statement_advances)
    then have "length (ptext st1) - pos st1 < n"
      using Suc.prems p skip_whitespace_follows [of st] by (auto simp: advances_def follows_def)
    from Suc.IH [OF this] l show False by blast
  qed
qed

lemma parse_all_total: "parse_all st \<noteq> None"
proof -
  have "parse_all_loop (Suc (length (ptext st))) [] st \<noteq> None"
    by (rule parse_all_loop_enough) simp
  then obtain r where "parse_all_loop (Suc (length (ptext st))) [] st = Some r"
    by blast
  then show ?thesis
    unfolding parse_all_def by (cases r) (simp_all split: prod.splits)
qed

lemma main_total: "main content \<noteq> None"
proof -
  obtain r where "parse_all (Parser content) = Some r"
    using parse_all_total [of "Parser content"] by blast
  then show ?thesis
    by (cases r) (simp_all add: main_def split: prod.splits option.splits)
qed

section \<open>Lemmas on string and dict literals\<close>

lemma string_scan_body:
  "p \<le> length t \<Longrightarrow>
     (case string_body (drop p t) of
        None \<Rightarrow> length t \<le> string_scan t p
      | Some (s, rest) \<Rightarrow>
          string_scan t p = p + length s \<and> p + length s < length t \<and>
          t ! (p + length s) = DQUOTE \<and> s = take (length s) (drop p t) \<and>
          rest = drop (p + length s + 1) t)"
proof (induction t p rule: string_scan.induct)
  case (1 t p)
  show ?case
  proof (cases "p < length t")
    case False
    then show ?thesis using "1.prems" by (subst string_scan.simps) simp
  next
    case True
    then have d: "drop p t = t ! p # drop (Suc p) t" by (simp add: Cons_nth_drop_Suc)
    show ?thesis
    proof (cases "t ! p = DQUOTE")
      case q: True
      then show ?thesis using True d by (subst string_scan.simps) simp
    next
      case nq: False
      show ?thesis
      proof (cases "t ! p = BACKSLASH")
        case b: True
        show ?thesis
        proof (cases "p + 1 \<ge> length t")
          case e: True
          then have "drop (Suc p) t = []" by simp
          then show ?thesis using True nq b e d by (subst string_scan.simps) simp
        next
          case ne: False
          then have d2: "drop (Suc p) t = t ! Suc p # drop (Suc (Suc p)) t"
            by (simp add: Cons_nth_drop_Suc)
          have ih: "case string_body (drop (p + 1 + 1) t) of
              None \<Rightarrow> length t \<le> string_scan t (p + 1 + 1)
            | Some (s, rest) \<Rightarrow>
                string_scan t (p + 1 + 1) = p + 1 + 1 + length s \<and>
                p + 1 + 1 + length s < length t \<and>
                t ! (p + 1 + 1 + length s) = DQUOTE \<and> s = take (length s) (drop (p + 1 + 1) t) \<and>
                rest = drop (p + 1 + 1 + length s + 1) t"
            using "1.IH"(1) True nq b ne by simp
          have sc: "string_scan t p = string_scan t (p + 1 + 1)"
            using True nq b ne by (subst string_scan.simps) simp
          show ?thesis
            using ih True nq b
            by (cases "string_body (drop (Suc (Suc p)) t)") (auto simp: sc d d2)
        qed
      next
        case nb: False
        have ih: "case string_body (drop (p + 1) t) of
              None \<Rightarrow> length t \<le> string_scan t (p + 1)
            | Some (s, rest) \<Rightarrow>
                string_scan t (p + 1) = p + 1 + length s \<and>
                p + 1 + length s < length t \<and>
                t ! (p + 1 + length s) = DQUOTE \<and> s = take (length s) (drop (p + 1) t) \<and>
                rest = drop (p + 1 + length s + 1) t"
          using "1.IH"(2) True nq nb by simp
        have sc: "string_scan t p = string_scan t (p + 1)"
          using True nq nb by (subst string_scan.simps) simp
        show ?thesis
          using ih True nq nb
          by (cases "string_body (drop (Suc p) t)") (auto simp: sc d)
      qed
    qed
  qed
qed

lemma not_isspace_DQUOTE: "\<not> isspace DQUOTE"
  by (simp add: isspace_def DQUOTE_def)

lemma match_quote:
  assumes "pos st < length (ptext st)" "ptext st ! pos st = DQUOTE"
  shows "match (Lit [DQUOTE]) st = Inr ([DQUOTE], st\<lparr>pos := pos st + 1, col := col st + 1\<rparr>)"
proof -
  have "skip_whitespace st = st"
    using assms by (simp add: skip_whitespace_at_token not_isspace_DQUOTE)
  moreover have "take 1 (drop (pos st) (ptext st)) = [DQUOTE]"
    using assms by (simp add: Cons_nth_drop_Suc [symmetric])
  ultimately show ?thesis by (simp add: match_def)
qed

lemma assign_all_simps [simp]:
  "assign_all d [] = d"
  "assign_all d ((k, v) # es) = assign_all (dict_setitem d k v) es"
  by (simp_all add: assign_all_def)

lemma parse_dict_loop_entries:
  "parse_dict_loop n first result st =
     (case parse_dict_entries n first st of
        None \<Rightarrow> None
      | Some (Inl e) \<Rightarrow> Some (Inl e)
      | Some (Inr (entries, st')) \<Rightarrow> Some (Inr (assign_all result entries, st')))"
proof (induction n arbitrary: first result st)
  case 0
  show ?case by simp
next
  case (Suc n)
  show ?case
    by (simp add: Suc Let_def split: sum.split option.split prod.split)
qed

lemma keys_dict_setitem:
  "map fst (dict_setitem d k v) = (if k \<in> set (map fst d) then map fst d else map fst d @ [k])"
proof (induction d)
  case Nil
  show ?case by simp
next
  case (Cons p d)
  obtain k' v' where p: "p = (k', v')" by (cases p)
  show ?case using Cons by (cases "k' = k") (simp_all add: p)
qed

lemma keep_first_cong: "set s = set s' \<Longrightarrow> keep_first s xs = keep_first s' xs"
proof (induction xs arbitrary: s s')
  case Nil
  show ?case by simp
next
  case (Cons x xs)
  have "keep_first s xs = keep_first s' xs" using Cons.prems by (rule Cons.IH)
  moreover have "keep_first (x # s) xs = keep_first (x # s') xs"
    by (rule Cons.IH) (simp add: Cons.prems)
  moreover have "x \<in> set s \<longleftrightarrow> x \<in> set s'" by (simp add: Cons.prems)
  ultimately show ?case by simp
qed

lemma keep_first_distinct: "distinct (keep_first seen xs) \<and> set (keep_first seen xs) \<inter> set seen = {}"
proof (induction xs arbitrary: seen)
  case Nil
  show ?case by simp
next
  case (Cons x xs)
  show ?case
    using Cons [of seen] Cons [of "x # seen"] by auto
qed

lemma keys_assign_all:
  "map fst (assign_all d es) = map fst d @ keep_first (map fst d) (map fst es)"
proof (induction es arbitrary: d)
  case Nil
  show ?case by simp
next
  case (Cons e es)
  obtain k v where e: "e = (k, v)" by (cases e)
  show ?case
  proof (cases "k \<in> set (map fst d)")
    case True
    then show ?thesis
      using Cons [of "dict_setitem d k v"] by (simp add: e keys_dict_setitem)
  next
    case False
    have "keep_first (map fst d @ [k]) (map fst es) = keep_first (k # map fst d) (map fst es)"
      by (rule keep_first_cong) auto
    then show ?thesis
      using False Cons [of "dict_setitem d k v"] by (simp add: e keys_dict_setitem)
  qed
qed

lemma map_of_assign_all:
  "map_of (assign_all d es) = map_of d ++ map_of (rev es)"
proof (induction es arbitrary: d)
  case Nil
  show ?case by simp
next
  case (Cons e es)
  obtain k v where e: "e = (k, v)" by (cases e)
  have "map_of (assign_all (dict_setitem d k v) es) = (map_of d)(k \<mapsto> v) ++ map_of (rev es)"
    by (simp only: Cons [of "dict_setitem d k v"] map_of_dict_setitem)
  also have "\<dots> = map_of d ++ (map_of (rev es @ [(k, v)]))"
    by (auto simp: fun_eq_iff map_add_def split: option.splits)
  finally show ?case by (simp add: e)
qed

section \<open>The claims\<close>

text \<open>
  C9, as the code has it: \<open>skip_whitespace\<close> consumes exactly the longest run of
  characters accepted by \<open>str.isspace\<close> at the current position, which besides space,
  tab and newline holds form feed, vertical tab, carriage return and the other separators.
  It stops at the first character that is not such whitespace (or at the end); every
  newline consumed adds one to the line and sets the column to 1, every other consumed
  character adds one to the column.
\<close>

theorem skip_whitespace_consumes_isspace_run:
  "skip_whitespace st =
     (let ws = takeWhile isspace (drop (pos st) (ptext st));
          lc = foldl advance (line st, col st) ws
      in st\<lparr>pos := pos st + length ws, line := fst lc, col := snd lc\<rparr>)"
  by (rule skip_whitespace_run)

theorem skip_whitespace_consumes_isspace_run_witness:
  "skip_whitespace (Parser [CHR '' '', NL, CHR 0x09, CHR ''q'']) =
     \<lparr>ptext = [CHR '' '', NL, CHR 0x09, CHR ''q''], pos = 3, line = 2, col = 2\<rparr>"
  using skip_whitespace_consumes_isspace_run [of "Parser [CHR '' '', NL, CHR 0x09, CHR ''q'']"]
  by (simp add: Parser_def isspace_def NL_def Let_def)

text \<open>
  C9 as stated fails: a form feed is none of space, tab and newline, yet
  \<open>skip_whitespace\<close> moves past it.
\<close>

theorem skip_whitespace_form_feed_counterexample:
  "pos (skip_whitespace (Parser [CHR 0x0C, CHR ''a''])) = 1 \<and>
   length (takeWhile spec_whitespace [CHR 0x0C, CHR ''a'']) = 0"
  by code_simp

text \<open>
  C1, as the code has it: the value a \<open>q\<close> directive hands to the serializer is the
  resolution of its argument, and a \<open>let\<close> stores the resolution of its value; resolving
  a dict keeps its entries in the literal's order at every depth, and a reference
  resolves to the stored value itself. So every dict in an emitted value, written in the
  argument, nested in it or reached through a variable, has its keys in source order.
  The serializer, called without \<open>sort_keys=False\<close>, writes the keys of every mapping, at
  every depth, in sorted order.
\<close>

theorem emitted_value_key_order:
  "(evaluate it (q_node e) = Inr (r, it') \<longrightarrow>
      printed it' = printed it @ [resolution (map_of (variables it)) e]) \<and>
   (evaluate it (let_node x e) = Inr (r, it') \<longrightarrow>
      map_of (variables it') =
        (map_of (variables it))(PStr x \<mapsto> resolution (map_of (variables it)) e)) \<and>
   resolution env (PDict d) = PDict (map (\<lambda>(k, v). (k, resolution env v)) d) \<and>
   resolution env (var_node x) = (case env (PStr x) of Some v \<Rightarrow> v | None \<Rightarrow> var_node x) \<and>
   mappings_sorted (represent_data yaml_dump_kwargs v) \<and>
   mapping_keys (represent_data yaml_dump_kwargs (PDict d)) = sort (map fst d)"
proof -
  have 1: "printed it' = printed it @ [resolution (map_of (variables it)) e]"
    if "evaluate it (q_node e) = Inr (r, it')"
    using evaluate_effect [OF that] by simp
  have 2: "map_of (variables it') =
        (map_of (variables it))(PStr x \<mapsto> resolution (map_of (variables it)) e)"
    if "evaluate it (let_node x e) = Inr (r, it')"
    using evaluate_effect [OF that] by simp
  have 3: "resolution env (PDict d) = PDict (map (\<lambda>(k, v). (k, resolution env v)) d)"
    by (simp add: resolution_items_map)
  have 4: "resolution env (var_node x) =
      (case env (PStr x) of Some v \<Rightarrow> v | None \<Rightarrow> var_node x)"
    by simp
  show ?thesis
    using 1 2 3 4 represent_sorted(1) [of v] mapping_keys_represent [of d] by blast
qed

theorem emitted_value_key_order_witness:
  "evaluate \<lparr>variables = [(PStr ''x'', PDict [(''d'', PInt 1), (''c'', PInt 2)])], printed = []\<rparr>
       (q_node (PDict [(''b'', var_node ''x''), (''a'', PInt 2)])) =
     Inr (PNone,
       \<lparr>variables = [(PStr ''x'', PDict [(''d'', PInt 1), (''c'', PInt 2)])],
          printed = [PDict [(''b'', PDict [(''d'', PInt 1), (''c'', PInt 2)]), (''a'', PInt 2)]]\<rparr>) \<and>
   [PDict [(''b'', PDict [(''d'', PInt 1), (''c'', PInt 2)]), (''a'', PInt 2)]] =
     [] @ [resolution (map_of [(PStr ''x'', PDict [(''d'', PInt 1), (''c'', PInt 2)])])
            (PDict [(''b'', var_node ''x''), (''a'', PInt 2)])] \<and>
   represent_data yaml_dump_kwargs
       (PDict [(''b'', PDict [(''d'', PInt 1), (''c'', PInt 2)]), (''a'', PInt 2)]) =
     MappingNode [(''a'', ScalarNode (PInt 2)),
       (''b'', MappingNode [(''c'', ScalarNode (PInt 2)), (''d'', ScalarNode (PInt 1))])] \<and>
   mappings_sorted (represent_data yaml_dump_kwargs
       (PDict [(''b'', PDict [(''d'', PInt 1), (''c'', PInt 2)]), (''a'', PInt 2)]))"
proof -
  let ?it = "\<lparr>variables = [(PStr ''x'', PDict [(''d'', PInt 1), (''c'', PInt 2)])], printed = []\<rparr>"
  let ?e = "PDict [(''b'', var_node ''x''), (''a'', PInt 2)]"
  let ?v = "PDict [(''b'', PDict [(''d'', PInt 1), (''c'', PInt 2)]), (''a'', PInt 2)]"
  have h: "evaluate ?it (q_node ?e) = Inr (PNone, ?it\<lparr>printed := [?v]\<rparr>)"
    by simp
  have t: "(evaluate ?it (q_node ?e) = Inr (PNone, ?it\<lparr>printed := [?v]\<rparr>) \<longrightarrow>
      printed (?it\<lparr>printed := [?v]\<rparr>) =
        printed ?it @ [resolution (map_of (variables ?it)) ?e]) \<and>
    mappings_sorted (represent_data yaml_dump_kwargs ?v)"
    using emitted_value_key_order [of ?it ?e PNone "?it\<lparr>printed := [?v]\<rparr>" _ _ _ ?v]
    by blast
  have n: "represent_data yaml_dump_kwargs ?v =
     MappingNode [(''a'', ScalarNode (PInt 2)),
       (''b'', MappingNode [(''c'', ScalarNode (PInt 2)), (''d'', ScalarNode (PInt 1))])]"
    by code_simp
  show ?thesis
    using h t n by simp
qed

text \<open>
  C1 as stated fails: for the program \<open>q({b => 1, a => 2})\<close> the emitted dict has \<open>b\<close>
  before \<open>a\<close>, and the serializer writes the entry of \<open>a\<close> before the entry of \<open>b\<close>.
\<close>

theorem q_dict_sorted_output_counterexample:
  "main ''q({b => 1, a => 2})'' =
     Some \<lparr>out = [PDict [(''b'', PInt 1), (''a'', PInt 2)]], exit_code = 0, err = None\<rparr> \<and>
   map fst (represent_mapping yaml_dump_kwargs [(''b'', PInt 1), (''a'', PInt 2)]) =
     [''a'', ''b'']"
  by code_simp

text \<open>
  C3, as the code has it: evaluating a bare statement never prints and never changes the
  variables. A bare variable reference is looked up, and fails with the
  undefined-variable error when the name is unbound; a bare number, string or dict is
  returned as it is, without resolving the variable references inside it.
\<close>

theorem bare_statement_evaluate:
  "is_bare stmt \<Longrightarrow>
     evaluate it stmt =
       (case stmt of
          PTuple xs \<Rightarrow>
            (case map_of (variables it) (last xs) of
               None \<Rightarrow> Inl (UndefinedVariable (last xs))
             | Some v \<Rightarrow> Inr (v, it))
        | _ \<Rightarrow> Inr (stmt, it))"
  by (induction stmt rule: is_bare.induct) (auto split: option.splits)

theorem bare_statement_evaluate_witness:
  "is_bare (var_node ''x'') \<and>
   evaluate Interpreter (var_node ''x'') = Inl (UndefinedVariable (PStr ''x'')) \<and>
   is_bare (PDict [(''a'', var_node ''x'')]) \<and>
   evaluate Interpreter (PDict [(''a'', var_node ''x'')]) =
     Inr (PDict [(''a'', var_node ''x'')], Interpreter)"
  using bare_statement_evaluate [of "var_node ''x''" Interpreter]
    bare_statement_evaluate [of "PDict [(''a'', var_node ''x'')]" Interpreter]
  by (simp add: Interpreter_def)

text \<open>
  C3 as stated fails: the bare dict \<open>{a => $[x]}\<close> with \<open>x\<close> unbound is accepted, the run
  succeeds, although resolving the dict fails with the undefined-variable error.
\<close>

theorem bare_dict_not_resolved_counterexample:
  "main ''{a => $[x]}'' = Some \<lparr>out = [], exit_code = 0, err = None\<rparr> \<and>
   evaluate Interpreter (PDict [(''a'', var_node ''x'')]) =
     Inr (PDict [(''a'', var_node ''x'')], Interpreter) \<and>
   eval_value Interpreter (PDict [(''a'', var_node ''x'')]) =
     Inl (UndefinedVariable (PStr ''x''))"
  by code_simp

text \<open>
  C4, as the code has it: when evaluation reaches a top-level statement that is a tuple
  whose tag is none of \<open>let\<close>, \<open>q\<close> and \<open>var\<close>, the statement is rejected with the
  unknown-node error, and the run stops there with the state reached before it.
\<close>

theorem unknown_top_level_tag_rejected:
  "tag \<notin> {PStr ''let'', PStr ''q'', PStr ''var''} \<Longrightarrow>
   run_statements it pre = (it1, None) \<Longrightarrow>
     evaluate it1 (PTuple (tag # rest)) = Inl (UnknownNode (PTuple (tag # rest))) \<and>
     run_statements it (pre @ PTuple (tag # rest) # post) =
       (it1, Some (UnknownNode (PTuple (tag # rest))))"
  by (simp add: run_statements_append)

theorem unknown_top_level_tag_rejected_witness:
  "PStr ''bogus'' \<notin> {PStr ''let'', PStr ''q'', PStr ''var''} \<and>
   run_statements Interpreter [q_node (PInt 1)] =
     (\<lparr>variables = [], printed = [PInt 1]\<rparr>, None) \<and>
   run_statements Interpreter
       ([q_node (PInt 1)] @ PTuple (PStr ''bogus'' # [PInt 7]) # [q_node (PInt 2)]) =
     (\<lparr>variables = [], printed = [PInt 1]\<rparr>,
      Some (UnknownNode (PTuple (PStr ''bogus'' # [PInt 7]))))"
proof -
  have t: "PStr ''bogus'' \<notin> {PStr ''let'', PStr ''q'', PStr ''var''}" by simp
  have r: "run_statements Interpreter [q_node (PInt 1)] =
      (\<lparr>variables = [], printed = [PInt 1]\<rparr>, None)"
    by (simp add: Interpreter_def)
  show ?thesis
    using t r unknown_top_level_tag_rejected [OF t r, of "[PInt 7]" "[q_node (PInt 2)]"]
    by simp
qed

text \<open>
  C4 as stated fails: a tuple with an unknown tag inside a \<open>q\<close> directive is not rejected;
  it is resolved to itself and printed.
\<close>

theorem nested_unknown_tag_counterexample:
  "run_statements Interpreter [q_node (PTuple [PStr ''bogus'', PInt 7])] =
     (\<lparr>variables = [], printed = [PTuple [PStr ''bogus'', PInt 7]]\<rparr>, None)"
  by code_simp

text \<open>
  C2: the parser always returns; when it returns a failure, \<open>main\<close> prints nothing and
  exits with code 1, whatever directives precede the failure point; and \<open>main\<close> prints
  something only after the whole text has been parsed.
\<close>

theorem parse_failure_no_output:
  "(parse_all (Parser content) = Some (Inl e) \<longrightarrow>
      main content = Some \<lparr>out = [], exit_code = 1, err = Some e\<rparr>) \<and>
   (main content = Some oc \<and> out oc \<noteq> [] \<longrightarrow>
      (\<exists>ast. parse_all (Parser content) = Some (Inr ast))) \<and>
   (\<exists>r. parse_all (Parser content) = Some r)"
proof -
  obtain r where r: "parse_all (Parser content) = Some r"
    using parse_all_total [of "Parser content"] by blast
  show ?thesis
    by (cases r) (auto simp: r main_def split: prod.splits option.splits)
qed

theorem parse_failure_no_output_witness:
  "parse_all (Parser (''q(1)'' @ [NL] @ ''badtoken'')) =
     Some (Inl (SyntaxError 2 1 ExpectedValue)) \<and>
   main (''q(1)'' @ [NL] @ ''badtoken'') =
     Some \<lparr>out = [], exit_code = 1, err = Some (SyntaxError 2 1 ExpectedValue)\<rparr>"
proof -
  have h: "parse_all (Parser (''q(1)'' @ [NL] @ ''badtoken'')) =
     Some (Inl (SyntaxError 2 1 ExpectedValue))"
    by code_simp
  show ?thesis
    using h parse_failure_no_output
      [of "''q(1)'' @ [NL] @ ''badtoken''" "SyntaxError 2 1 ExpectedValue"]
    by blast
qed

text \<open>
  C7: a reference to an unbound name fails with the undefined-variable error naming it,
  alone or as the argument of \<open>q\<close>; and when the evaluation of a statement fails, \<open>main\<close>
  exits with code 1, its output is what the statements before it printed, and no later
  statement is evaluated.
\<close>

theorem evaluation_failure:
  "(map_of (variables it) (PStr name) = None \<longrightarrow>
      evaluate it (var_node name) = Inl (UndefinedVariable (PStr name)) \<and>
      evaluate it (q_node (var_node name)) = Inl (UndefinedVariable (PStr name))) \<and>
   (parse_all (Parser content) = Some (Inr (pre @ stmt # post)) \<and>
    run_statements Interpreter pre = (it1, None) \<and> evaluate it1 stmt = Inl e \<longrightarrow>
      main content = Some \<lparr>out = printed it1, exit_code = 1, err = Some e\<rparr>)"
  by (simp add: main_def run_statements_append)

theorem evaluation_failure_witness:
  "main ''q($[y])'' =
     Some \<lparr>out = [], exit_code = 1, err = Some (UndefinedVariable (PStr ''y''))\<rparr> \<and>
   main (''q(1)'' @ [NL] @ ''q($[y])'' @ [NL] @ ''q(2)'') =
     Some \<lparr>out = [PInt 1], exit_code = 1, err = Some (UndefinedVariable (PStr ''y''))\<rparr>"
proof -
  have p1: "parse_all (Parser ''q($[y])'') = Some (Inr ([] @ q_node (var_node ''y'') # []))"
    by code_simp
  have r1: "run_statements Interpreter [] = (Interpreter, None)" by simp
  have u: "map_of (variables Interpreter) (PStr ''y'') = None" by (simp add: Interpreter_def)
  have e1: "evaluate Interpreter (q_node (var_node ''y'')) = Inl (UndefinedVariable (PStr ''y''))"
    using evaluation_failure [of Interpreter "''y''"] u by blast
  have m1: "main ''q($[y])'' =
     Some \<lparr>out = printed Interpreter, exit_code = 1, err = Some (UndefinedVariable (PStr ''y''))\<rparr>"
    using evaluation_failure [of Interpreter "''y''" "''q($[y])''" "[]" "q_node (var_node ''y'')" "[]"
        Interpreter "UndefinedVariable (PStr ''y'')"] p1 r1 e1 by blast
  have p2: "parse_all (Parser (''q(1)'' @ [NL] @ ''q($[y])'' @ [NL] @ ''q(2)'')) =
      Some (Inr ([q_node (PInt 1)] @ q_node (var_node ''y'') # [q_node (PInt 2)]))"
    by code_simp
  have r2: "run_statements Interpreter [q_node (PInt 1)] =
      (\<lparr>variables = [], printed = [PInt 1]\<rparr>, None)"
    by (simp add: Interpreter_def)
  have e2: "evaluate \<lparr>variables = [], printed = [PInt 1]\<rparr> (q_node (var_node ''y'')) =
      Inl (UndefinedVariable (PStr ''y''))"
    by simp
  have m2: "main (''q(1)'' @ [NL] @ ''q($[y])'' @ [NL] @ ''q(2)'') =
     Some \<lparr>out = printed \<lparr>variables = [], printed = [PInt 1]\<rparr>, exit_code = 1,
           err = Some (UndefinedVariable (PStr ''y''))\<rparr>"
    using evaluation_failure [of Interpreter "''y''" "''q(1)'' @ [NL] @ ''q($[y])'' @ [NL] @ ''q(2)''"
        "[q_node (PInt 1)]" "q_node (var_node ''y'')" "[q_node (PInt 2)]"
        "\<lparr>variables = [], printed = [PInt 1]\<rparr>" "UndefinedVariable (PStr ''y'')"] p2 r2 e2
    by blast
  show ?thesis using m1 m2 by (simp add: Interpreter_def)
qed

text \<open>
  C8: whenever a program runs without a failure, what it prints and the bindings it
  leaves are those of strictly sequential execution: every use, directly in \<open>q\<close> or
  \<open>let\<close> or nested in a dict, is resolved in the environment current at that point, and
  a later \<open>let\<close> of the same name changes only what later statements see. For a \<open>let\<close>,
  a use, a second \<open>let\<close> of the same name and a second use, sequential execution prints
  the first value and then the second.
\<close>

theorem sequential_resolution:
  "(run_statements it prog = (it', None) \<longrightarrow>
      printed it' = printed it @ snd (program_effect (map_of (variables it)) prog) \<and>
      map_of (variables it') = fst (program_effect (map_of (variables it)) prog)) \<and>
   snd (program_effect env
          [let_node x a, q_node (var_node x), let_node x b, q_node (var_node x)]) =
     [resolution env a, resolution (env(PStr x \<mapsto> resolution env a)) b]"
proof -
  have "printed it' = printed it @ snd (program_effect (map_of (variables it)) prog) \<and>
      map_of (variables it') = fst (program_effect (map_of (variables it)) prog)"
    if "run_statements it prog = (it', None)"
    using program_effect_run [OF that] by simp
  moreover have "snd (program_effect env
          [let_node x a, q_node (var_node x), let_node x b, q_node (var_node x)]) =
     [resolution env a, resolution (env(PStr x \<mapsto> resolution env a)) b]"
    by simp
  ultimately show ?thesis by blast
qed

theorem sequential_resolution_witness:
  "main (''let x = 1'' @ [NL] @ ''q($[x])'' @ [NL] @ ''let x = 2'' @ [NL] @ ''q($[x])'') =
     Some \<lparr>out = [PInt 1, PInt 2], exit_code = 0, err = None\<rparr> \<and>
   [PInt 1, PInt 2] =
     [] @ snd (program_effect (map_of [])
        [let_node ''x'' (PInt 1), q_node (var_node ''x''),
         let_node ''x'' (PInt 2), q_node (var_node ''x'')]) \<and>
   main (''let x = 5'' @ [NL] @ ''q({k => $[x]})'') =
     Some \<lparr>out = [PDict [(''k'', PInt 5)]], exit_code = 0, err = None\<rparr> \<and>
   [PDict [(''k'', PInt 5)]] =
     [] @ snd (program_effect (map_of [])
        [let_node ''x'' (PInt 5), q_node (PDict [(''k'', var_node ''x'')])])"
proof -
  let ?p1 = "[let_node ''x'' (PInt 1), q_node (var_node ''x''),
              let_node ''x'' (PInt 2), q_node (var_node ''x'')]"
  let ?p2 = "[let_node ''x'' (PInt 5), q_node (PDict [(''k'', var_node ''x'')])]"
  have a1: "parse_all (Parser (''let x = 1'' @ [NL] @ ''q($[x])'' @ [NL] @ ''let x = 2'' @ [NL] @ ''q($[x])''))
     = Some (Inr ?p1)"
    by code_simp
  have a2: "parse_all (Parser (''let x = 5'' @ [NL] @ ''q({k => $[x]})'')) = Some (Inr ?p2)"
    by code_simp
  have r1: "run_statements Interpreter ?p1 =
      (\<lparr>variables = [(PStr ''x'', PInt 2)], printed = [PInt 1, PInt 2]\<rparr>, None)"
    by (simp add: Interpreter_def)
  have r2: "run_statements Interpreter ?p2 =
      (\<lparr>variables = [(PStr ''x'', PInt 5)], printed = [PDict [(''k'', PInt 5)]]\<rparr>, None)"
    by (simp add: Interpreter_def)
  have s1: "[PInt 1, PInt 2] = [] @ snd (program_effect (map_of []) ?p1)"
    using sequential_resolution [of Interpreter ?p1
        "\<lparr>variables = [(PStr ''x'', PInt 2)], printed = [PInt 1, PInt 2]\<rparr>"] r1
    by (simp add: Interpreter_def)
  have s2: "[PDict [(''k'', PInt 5)]] = [] @ snd (program_effect (map_of []) ?p2)"
    using sequential_resolution [of Interpreter ?p2
        "\<lparr>variables = [(PStr ''x'', PInt 5)], printed = [PDict [(''k'', PInt 5)]]\<rparr>"] r2
    by (simp add: Interpreter_def)
  have m1: "main (''let x = 1'' @ [NL] @ ''q($[x])'' @ [NL] @ ''let x = 2'' @ [NL] @ ''q($[x])'') =
     Some \<lparr>out = [PInt 1, PInt 2], exit_code = 0, err = None\<rparr>"
    using a1 r1 by (simp add: main_def)
  have m2: "main (''let x = 5'' @ [NL] @ ''q({k => $[x]})'') =
     Some \<lparr>out = [PDict [(''k'', PInt 5)]], exit_code = 0, err = None\<rparr>"
    using a2 r2 by (simp add: main_def)
  show ?thesis using s1 s2 m1 m2 by blast
qed

text \<open>
  C6: at an opening quote, \<open>parse_string\<close> returns the literal that \<open>string_body\<close>
  describes, with backslash pairs kept as they are and an escaped quote not ending the
  literal, and fails with the unterminated-string error when the text ends before an
  unescaped closing quote.
\<close>

theorem parse_string_spec:
  assumes "pos st < length (ptext st)" and "ptext st ! pos st = DQUOTE"
  shows "parse_string st =
     (case string_body (drop (pos st + 1) (ptext st)) of
        None \<Rightarrow> Inl (SyntaxError (line st) (col st + 1) UnterminatedString)
      | Some (s, rest) \<Rightarrow>
          Inr (PStr s, st\<lparr>pos := pos st + length s + 2, col := col st + 2\<rparr>))"
proof -
  let ?t = "ptext st" and ?p = "pos st + 1"
  let ?st1 = "st\<lparr>pos := pos st + 1, col := col st + 1\<rparr>"
  have m: "match (Lit [DQUOTE]) st = Inr ([DQUOTE], ?st1)"
    using assms by (rule match_quote)
  have sb: "case string_body (drop ?p ?t) of
        None \<Rightarrow> length ?t \<le> string_scan ?t ?p
      | Some (s, rest) \<Rightarrow>
          string_scan ?t ?p = ?p + length s \<and> ?p + length s < length ?t \<and>
          ?t ! (?p + length s) = DQUOTE \<and> s = take (length s) (drop ?p ?t) \<and>
          rest = drop (?p + length s + 1) ?t"
    using assms(1) by (intro string_scan_body) simp
  show ?thesis
  proof (cases "string_body (drop ?p ?t)")
    case None
    with sb have "length ?t \<le> string_scan ?t ?p" by simp
    then show ?thesis
      using None m by (simp add: parse_string_def Let_def error_def)
  next
    case (Some r)
    obtain s rest where r: "r = (s, rest)" by (cases r)
    from sb Some r have sc: "string_scan ?t ?p = ?p + length s"
      and lt: "?p + length s < length ?t" and q: "?t ! (?p + length s) = DQUOTE"
      and s: "s = take (length s) (drop ?p ?t)"
      by simp_all
    let ?st2 = "?st1\<lparr>pos := ?p + length s\<rparr>"
    have m2: "match (Lit [DQUOTE]) ?st2 =
        Inr ([DQUOTE], ?st2\<lparr>pos := pos ?st2 + 1, col := col ?st2 + 1\<rparr>)"
      using lt q by (intro match_quote) simp_all
    have s': "take (length s) (drop (Suc (pos st)) (ptext st)) = s"
      using s by simp
    show ?thesis
      using Some r m m2 lt q sc
      by (simp add: parse_string_def Let_def s')
  qed
qed

theorem parse_string_spec_witness:
  "parse_string (Parser [DQUOTE, CHR ''a'', BACKSLASH, DQUOTE, CHR ''b'', DQUOTE]) =
     Inr (PStr [CHR ''a'', BACKSLASH, DQUOTE, CHR ''b''],
          \<lparr>ptext = [DQUOTE, CHR ''a'', BACKSLASH, DQUOTE, CHR ''b'', DQUOTE],
             pos = 6, line = 1, col = 3\<rparr>) \<and>
   parse_string (Parser [DQUOTE, CHR ''a'', BACKSLASH]) =
     Inl (SyntaxError 1 2 UnterminatedString)"
  using parse_string_spec [of "Parser [DQUOTE, CHR ''a'', BACKSLASH, DQUOTE, CHR ''b'', DQUOTE]"]
    parse_string_spec [of "Parser [DQUOTE, CHR ''a'', BACKSLASH]"]
  by (simp add: Parser_def DQUOTE_def BACKSLASH_def)

text \<open>
  C5, the code at the failing input: after the string literal \<open>"ab"\<close> the stray \<open>)\<close> at
  offset 4, which is line 1, column 5, is reported at line 1, column 3, because the
  scanning loop of \<open>parse_string\<close> moves \<open>pos\<close> without \<open>col\<close>.
\<close>

theorem syntax_error_column_after_string:
  "parse_all (Parser ([DQUOTE] @ ''ab'' @ [DQUOTE] @ '')'')) =
     Some (Inl (SyntaxError 1 3 ExpectedValue)) \<and>
   foldl advance (1, 1) (take 4 ([DQUOTE] @ ''ab'' @ [DQUOTE] @ '')'')) = (1, 5)"
  by code_simp

text \<open>
  C10: the dict that \<open>parse_dict\<close> returns has every key of the literal once, in the
  order of the keys' first occurrences, each bound to the value of its last occurrence.
\<close>

theorem dict_literal_duplicate_keys:
  assumes "parse_dict_fuel n st = Some (Inr (v, st'))"
  shows "\<exists>a st1 entries st2 d.
           match (Lit ''{'') st = Inr (a, st1) \<and>
           parse_dict_entries n True st1 = Some (Inr (entries, st2)) \<and>
           v = PDict d \<and> distinct (map fst d) \<and>
           map fst d = first_occurrences (map fst entries) \<and>
           map_of d = map_of (rev entries)"
proof -
  from assms obtain a st1 d st2 b where m: "match (Lit ''{'') st = Inr (a, st1)"
    and l: "parse_dict_loop n True [] st1 = Some (Inr (d, st2))"
    and v: "v = PDict d"
    by (rule parse_dict_fuel_Inr)
  from l obtain entries where e: "parse_dict_entries n True st1 = Some (Inr (entries, st2))"
    and d: "d = assign_all [] entries"
    by (auto simp: parse_dict_loop_entries [of n True "[]" st1] split: option.splits sum.splits)
  have k: "map fst d = first_occurrences (map fst entries)"
    by (simp add: d keys_assign_all first_occurrences_def)
  have "distinct (map fst d)"
    unfolding k first_occurrences_def using keep_first_distinct [of "[]"] by blast
  moreover have "map_of d = map_of (rev entries)"
    by (simp add: d map_of_assign_all)
  ultimately show ?thesis using m e v k by blast
qed

theorem dict_literal_duplicate_keys_witness:
  "parse_dict_fuel 25 (Parser ''{a => 1, b => 2, a => 3}'') =
     Some (Inr (PDict [(''a'', PInt 3), (''b'', PInt 2)],
        \<lparr>ptext = ''{a => 1, b => 2, a => 3}'', pos = 24, line = 1, col = 25\<rparr>)) \<and>
   parse_dict_entries 25 True
       \<lparr>ptext = ''{a => 1, b => 2, a => 3}'', pos = 1, line = 1, col = 2\<rparr> =
     Some (Inr ([(''a'', PInt 1), (''b'', PInt 2), (''a'', PInt 3)],
        \<lparr>ptext = ''{a => 1, b => 2, a => 3}'', pos = 23, line = 1, col = 24\<rparr>)) \<and>
   (\<exists>d. PDict [(''a'', PInt 3), (''b'', PInt 2)] = PDict d \<and> distinct (map fst d) \<and>
        map fst d = first_occurrences [''a'', ''b'', ''a''] \<and>
        map_of d = map_of (rev [(''a'', PInt 1), (''b'', PInt 2), (''a'', PInt 3)]))"
proof -
  have p: "parse_dict_fuel 25 (Parser ''{a => 1, b => 2, a => 3}'') =
     Some (Inr (PDict [(''a'', PInt 3), (''b'', PInt 2)],
        \<lparr>ptext = ''{a => 1, b => 2, a => 3}'', pos = 24, line = 1, col = 25\<rparr>))"
    by code_simp
  have m: "match (Lit ''{'') (Parser ''{a => 1, b => 2, a => 3}'') =
     Inr (''{'', \<lparr>ptext = ''{a => 1, b => 2, a => 3}'', pos = 1, line = 1, col = 2\<rparr>)"
    by code_simp
  have e: "parse_dict_entries 25 True
       \<lparr>ptext = ''{a => 1, b => 2, a => 3}'', pos = 1, line = 1, col = 2\<rparr> =
     Some (Inr ([(''a'', PInt 1), (''b'', PInt 2), (''a'', PInt 3)],
        \<lparr>ptext = ''{a => 1, b => 2, a => 3}'', pos = 23, line = 1, col = 24\<rparr>))"
    by code_simp
  from dict_literal_duplicate_keys [OF p] obtain a st1 entries st2 d where
    1: "match (Lit ''{'') (Parser ''{a => 1, b => 2, a => 3}'') = Inr (a, st1)"
    and 2: "parse_dict_entries 25 True st1 = Some (Inr (entries, st2))"
    and 3: "PDict [(''a'', PInt 3), (''b'', PInt 2)] = PDict d" "distinct (map fst d)"
      "map fst d = first_occurrences (map fst entries)" "map_of d = map_of (rev entries)"
    by blast
  from 1 m have "st1 = \<lparr>ptext = ''{a => 1, b => 2, a => 3}'', pos = 1, line = 1, col = 2\<rparr>"
    by simp
  with 2 e have "entries = [(''a'', PInt 1), (''b'', PInt 2), (''a'', PInt 3)]" by simp
  with 3 have "PDict [(''a'', PInt 3), (''b'', PInt 2)] = PDict d \<and> distinct (map fst d) \<and>
        map fst d = first_occurrences [''a'', ''b'', ''a''] \<and>
        map_of d = map_of (rev [(''a'', PInt 1), (''b'', PInt 2), (''a'', PInt 3)])"
    by simp
  then show ?thesis using p e by blast
qed

end
